theory Spec2Isabelle
  imports Complex_Main
begin

section \<open>JavaScript values\<close>

text \<open>
  The pages are TypeScript running on a JavaScript engine. Strings are lists of
  \<^typ>\<open>char\<close>; one \<^typ>\<open>char\<close> stands for one code unit below 256. A number is
  \<open>NaN\<close>, an infinity (\<open>Infinity True\<close> is the negative one) or a finite value; every
  finite double is a rational, so finite values are carried as \<^typ>\<open>rat\<close>. An optional
  field is an \<open>option\<close>: \<open>None\<close> stands for \<open>undefined\<close> and for \<open>null\<close>, which the
  code never tells apart (it only tests truthiness and copies).
\<close>

datatype jsnum = NaN | Infinity bool | Num rat

datatype js_error = TypeError

definition isNaN :: "jsnum \<Rightarrow> bool" where
  "isNaN x = (x = NaN)"

text \<open>Truthiness of an optional string and of an optional number.\<close>

definition truthy_str :: "string option \<Rightarrow> bool" where
  "truthy_str v = (case v of None \<Rightarrow> False | Some s \<Rightarrow> s \<noteq> [])"

definition truthy_num :: "jsnum option \<Rightarrow> bool" where
  "truthy_num v =
     (case v of None \<Rightarrow> False | Some NaN \<Rightarrow> False | Some (Infinity _) \<Rightarrow> True
      | Some (Num r) \<Rightarrow> r \<noteq> 0)"

text \<open>
  White space and line terminators that \<open>String.prototype.trim\<close> and \<open>parseFloat\<close>
  strip, among the code units below 256: TAB, LF, VT, FF, CR, SP, NBSP.
\<close>

definition is_white_space :: "char \<Rightarrow> bool" where
  "is_white_space c =
     (c \<in> set [CHR 0x09, CHR 0x0A, CHR 0x0B, CHR 0x0C, CHR 0x0D, CHR 0x20, CHR 0xA0])"

definition trim :: "string \<Rightarrow> string" where
  "trim s = rev (dropWhile is_white_space (rev (dropWhile is_white_space s)))"

text \<open>
  The property names every object literal inherits from \<open>Object.prototype\<close>. The
  operator \<open>in\<close> answers true for them on the empty object \<open>{}\<close>.
\<close>

definition Object_prototype_keys :: "string list" where
  "Object_prototype_keys =
     [''constructor'', ''__defineGetter__'', ''__defineSetter__'', ''hasOwnProperty'',
      ''__lookupGetter__'', ''__lookupSetter__'', ''isPrototypeOf'',
      ''propertyIsEnumerable'', ''toString'', ''valueOf'', ''__proto__'',
      ''toLocaleString'']"

section \<open>PageMerger: \<open>mergePageResults\<close>\<close>

text \<open>
  Modelled from the spec: the types \<open>POExtractResponse\<close> and \<open>PageExtractResponse\<close> are
  imported from \<open>@/types/inward\<close>, which is not among the source files. The fields are
  the ones \<open>mergePageResults\<close> and its caller read, typed as the spec's data model says:
  optional strings, optional numbers, and an optional article sequence. The type
  parameter is what the field \<open>articles\<close> holds: the article list itself in the value
  model below, a reference to an array in the store model further down.
\<close>

record ArticleExtract =
  item_description :: string
  po_weight :: "jsnum option"
  unit_rate :: "jsnum option"
  article_total_amount :: "jsnum option"

record 'a POExtractResponse =
  po_number :: "string option"
  supplier_name :: "string option"
  customer_name :: "string option"
  source_location :: "string option"
  destination_location :: "string option"
  purchased_by :: "string option"
  currency :: "string option"
  total_amount :: "jsnum option"
  tax_amount :: "jsnum option"
  discount_amount :: "jsnum option"
  po_quantity :: "jsnum option"
  articles :: "'a option"

record 'p PageExtractResponse =
  job_id :: string
  page_num :: nat
  total_pages :: nat
  purchase_orders :: "'p list option"

text \<open>\<open>const poNum = po.po_number?.trim() || null\<close>\<close>

definition poNum :: "'a POExtractResponse \<Rightarrow> string option" where
  "poNum po =
     (case po_number po of None \<Rightarrow> None
      | Some s \<Rightarrow> (if trim s = [] then None else Some (trim s)))"

text \<open>\<open>const articles = po.articles || []\<close>\<close>

definition articles_of :: "'e list POExtractResponse \<Rightarrow> 'e list" where
  "articles_of po = (case articles po of None \<Rightarrow> [] | Some xs \<Rightarrow> xs)"

text \<open>
  The loop over \<open>fillFields\<close>: \<open>if (!existing[f] && po[f]) existing[f] = po[f]\<close>, once for
  each of the ten fields.
\<close>

definition fill :: "('v \<Rightarrow> bool) \<Rightarrow> 'v \<Rightarrow> 'v \<Rightarrow> 'v" where
  "fill truthy old new = (if \<not> truthy old \<and> truthy new then new else old)"

definition fillFields :: "'a POExtractResponse \<Rightarrow> 'b POExtractResponse \<Rightarrow> 'a POExtractResponse" where
  "fillFields existing po = existing
     \<lparr> supplier_name := fill truthy_str (supplier_name existing) (supplier_name po),
       customer_name := fill truthy_str (customer_name existing) (customer_name po),
       source_location := fill truthy_str (source_location existing) (source_location po),
       destination_location :=
         fill truthy_str (destination_location existing) (destination_location po),
       purchased_by := fill truthy_str (purchased_by existing) (purchased_by po),
       currency := fill truthy_str (currency existing) (currency po),
       total_amount := fill truthy_num (total_amount existing) (total_amount po),
       tax_amount := fill truthy_num (tax_amount existing) (tax_amount po),
       discount_amount := fill truthy_num (discount_amount existing) (discount_amount po),
       po_quantity := fill truthy_num (po_quantity existing) (po_quantity po) \<rparr>"

text \<open>
  \<open>existing.articles = [...(existing.articles || []), ...articles]\<close> followed by the
  fill loop.
\<close>

definition merge_into ::
  "'e list POExtractResponse \<Rightarrow> 'e list POExtractResponse \<Rightarrow> 'e list POExtractResponse" where
  "merge_into existing po =
     fillFields (existing\<lparr>articles := Some (articles_of existing @ articles_of po)\<rparr>) po"

text \<open>
  The state of the loop: \<open>allPOs\<close> and \<open>seenPONumbers\<close>. \<open>poNum in seenPONumbers\<close> is true
  for a key the loop stored and for a key inherited from \<open>Object.prototype\<close>; for an
  inherited key \<open>seenPONumbers[poNum]\<close> is no index, \<open>allPOs[...]\<close> is \<open>undefined\<close> and
  \<open>existing.articles\<close> throws a \<open>TypeError\<close>, which nothing in the function catches.
\<close>

type_synonym 'e merge_state = "'e list POExtractResponse list \<times> (string \<rightharpoonup> nat)"

definition in_seen :: "(string \<rightharpoonup> nat) \<Rightarrow> string \<Rightarrow> bool" where
  "in_seen seenPONumbers k = (seenPONumbers k \<noteq> None \<or> k \<in> set Object_prototype_keys)"

text \<open>The body of the inner loop, for one purchase-order entry.\<close>

definition merge_po :: "'e merge_state \<Rightarrow> 'e list POExtractResponse \<Rightarrow> js_error + 'e merge_state" where
  "merge_po st po =
     (case st of (allPOs, seenPONumbers) \<Rightarrow>
        if poNum po = None \<and> articles_of po = [] then Inr (allPOs, seenPONumbers)
        else (case poNum po of
            Some k \<Rightarrow>
              if in_seen seenPONumbers k then
                (case seenPONumbers k of
                   Some i \<Rightarrow>
                     if i < length allPOs
                     then Inr (allPOs[i := merge_into (allPOs ! i) po], seenPONumbers)
                     else Inl TypeError
                 | None \<Rightarrow> Inl TypeError)
              else Inr (allPOs @ [po\<lparr>articles := Some (articles_of po)\<rparr>],
                        seenPONumbers(k \<mapsto> length allPOs))
          | None \<Rightarrow>
              if length allPOs > 0 then
                Inr (allPOs[length allPOs - 1 := merge_into (allPOs ! (length allPOs - 1)) po],
                     seenPONumbers)
              else Inr (allPOs @ [po\<lparr>articles := Some (articles_of po)\<rparr>], seenPONumbers)))"

text \<open>\<open>for (const po of page.purchase_orders)\<close>: an exception ends the loop.\<close>

fun merge_pos :: "'e merge_state \<Rightarrow> 'e list POExtractResponse list \<Rightarrow> js_error + 'e merge_state" where
  "merge_pos st [] = Inr st"
| "merge_pos st (po # pos) =
     (case merge_po st po of Inl e \<Rightarrow> Inl e | Inr st' \<Rightarrow> merge_pos st' pos)"

text \<open>
  \<open>for (const page of pageResults)\<close>, with
  \<open>if (!page.purchase_orders || page.purchase_orders.length === 0) continue\<close>.
\<close>

fun merge_pages ::
  "'e merge_state \<Rightarrow> 'e list POExtractResponse PageExtractResponse list \<Rightarrow> js_error + 'e merge_state" where
  "merge_pages st [] = Inr st"
| "merge_pages st (page # pages) =
     (case purchase_orders page of
        None \<Rightarrow> merge_pages st pages
      | Some pos \<Rightarrow>
          if pos = [] then merge_pages st pages
          else (case merge_pos st pos of Inl e \<Rightarrow> Inl e | Inr st' \<Rightarrow> merge_pages st' pages))"

text \<open>
  The function returns \<open>{ purchase_orders: allPOs }\<close>; the model returns \<open>allPOs\<close>, or
  the exception.
\<close>

definition mergePageResults ::
  "'e list POExtractResponse PageExtractResponse list \<Rightarrow> js_error + 'e list POExtractResponse list" where
  "mergePageResults pageResults =
     (case merge_pages ([], Map.empty) pageResults of
        Inl e \<Rightarrow> Inl e
      | Inr st \<Rightarrow> Inr (fst st))"

subsection \<open>What the specification says about a merged entry\<close>





subsection \<open>Invariants of the loop\<close>

text \<open>
  \<open>seenPONumbers\<close> maps exactly the keys of the records of \<open>allPOs\<close> to their positions.
\<close>

definition seen_consistent :: "'e merge_state \<Rightarrow> bool" where
  "seen_consistent st =
     (\<forall>k i. snd st k = Some i \<longleftrightarrow> i < length (fst st) \<and> poNum (fst st ! i) = Some k)"

text \<open>
  The full invariant: beside \<open>seen_consistent\<close>, no inherited key is ever stored, every record of \<open>allPOs\<close> has an article array, and a record without a key is
  the first one and has an article. \<open>seen_below n\<close> is \<open>seenPONumbers\<close> cut down to the
  positions below \<open>n\<close>; \<open>no_inherited_key\<close> says that no entry's key is a name
  inherited from \<open>Object.prototype\<close>.
\<close>

definition merge_inv :: "'e merge_state \<Rightarrow> bool" where
  "merge_inv st =
     (seen_consistent st \<and>
      (\<forall>k \<in> set Object_prototype_keys. snd st k = None) \<and>
      (\<forall>i < length (fst st).
         articles (fst st ! i) \<noteq> None \<and>
         (poNum (fst st ! i) = None \<longrightarrow> i = 0 \<and> articles_of (fst st ! i) \<noteq> [])))"

definition no_inherited_key :: "'e list POExtractResponse PageExtractResponse list \<Rightarrow> bool" where
  "no_inherited_key pages =
     list_all (\<lambda>page. case purchase_orders page of
                 None \<Rightarrow> True
               | Some pos \<Rightarrow>
                   list_all (\<lambda>po. case poNum po of
                               None \<Rightarrow> True
                             | Some k \<Rightarrow> k \<notin> set Object_prototype_keys) pos) pages"

definition seen_below :: "nat \<Rightarrow> (string \<rightharpoonup> nat) \<Rightarrow> (string \<rightharpoonup> nat)" where
  "seen_below n seen k = (case seen k of None \<Rightarrow> None | Some i \<Rightarrow> if i < n then Some i else None)"

subsection \<open>Entries and pages for the scenarios\<close>

definition empty_entry :: "'a POExtractResponse" where
  "empty_entry =
     \<lparr> po_number = None, supplier_name = None, customer_name = None, source_location = None,
       destination_location = None, purchased_by = None, currency = None,
       total_amount = None, tax_amount = None, discount_amount = None, po_quantity = None,
       articles = None \<rparr>"

definition one_page :: "nat \<Rightarrow> 'p list \<Rightarrow> 'p PageExtractResponse" where
  "one_page n pos = \<lparr> job_id = ''job'', page_num = n, total_pages = 2, purchase_orders = Some pos \<rparr>"

definition article_named :: "string \<Rightarrow> ArticleExtract" where
  "article_named d = \<lparr> item_description = d, po_weight = None, unit_rate = None,
                 article_total_amount = None \<rparr>"

section \<open>Number and string conversions\<close>

text \<open>
  \<open>parseFloat\<close>: leading white space is skipped, then the longest prefix that is a
  decimal literal is read: an optional sign, then \<open>Infinity\<close>, or digits with an optional
  fraction, or a fraction alone, and an optional exponent. With no such prefix the
  result is \<open>NaN\<close>. The value is the exact decimal value; the rounding to a double is
  not modelled (it never turns a number into \<open>NaN\<close> or back).
\<close>

definition is_digit :: "char \<Rightarrow> bool" where
  "is_digit c = (c \<in> set ''0123456789'')"

definition digit_value :: "char \<Rightarrow> nat" where
  "digit_value c = of_char c - 48"

definition digits_value :: "string \<Rightarrow> nat" where
  "digits_value ds = foldl (\<lambda>n c. 10 * n + digit_value c) 0 ds"

definition isPrefixOf :: "string \<Rightarrow> string \<Rightarrow> bool" where
  "isPrefixOf p s = (take (length p) s = p)"

text \<open>The exponent part: \<open>e\<close> or \<open>E\<close>, an optional sign, and at least one digit.\<close>

definition exponent_part :: "string \<Rightarrow> int" where
  "exponent_part s =
     (case s of
        [] \<Rightarrow> 0
      | c # r \<Rightarrow>
          if c = CHR ''e'' \<or> c = CHR ''E'' then
            (case r of
               [] \<Rightarrow> 0
             | d # r' \<Rightarrow>
                 if d = CHR ''-'' then
                   (if takeWhile is_digit r' = [] then 0
                    else - int (digits_value (takeWhile is_digit r')))
                 else if d = CHR ''+'' then int (digits_value (takeWhile is_digit r'))
                 else int (digits_value (takeWhile is_digit r)))
          else 0)"

definition scale10 :: "rat \<Rightarrow> int \<Rightarrow> rat" where
  "scale10 m e = (if 0 \<le> e then m * 10 ^ nat e else m / 10 ^ nat (- e))"

definition parse_unsigned :: "bool \<Rightarrow> string \<Rightarrow> jsnum" where
  "parse_unsigned negative u =
     (if isPrefixOf ''Infinity'' u then Infinity negative
      else
        (let ip = takeWhile is_digit u;
             r1 = dropWhile is_digit u;
             fp = (case r1 of [] \<Rightarrow> [] | c # r \<Rightarrow> if c = CHR ''.'' then takeWhile is_digit r else []);
             r2 = (case r1 of [] \<Rightarrow> [] | c # r \<Rightarrow> if c = CHR ''.'' then dropWhile is_digit r else r1)
         in if ip = [] \<and> fp = [] then NaN
            else
              (let mantissa = of_nat (digits_value ip) + of_nat (digits_value fp) / 10 ^ length fp;
                   v = scale10 mantissa (exponent_part r2)
               in Num (if negative then - v else v))))"

definition parseFloat :: "string \<Rightarrow> jsnum" where
  "parseFloat s =
     (case dropWhile is_white_space s of
        [] \<Rightarrow> NaN
      | c # r \<Rightarrow>
          if c = CHR ''-'' then parse_unsigned True r
          else if c = CHR ''+'' then parse_unsigned False r
          else parse_unsigned False (c # r))"




section \<open>ReconciliationTracker: the transfer-in page\<close>

text \<open>
  Modelled from the spec: the transfer record that \<open>getTransferByNumber\<close> returns is typed
  \<open>any\<close> in the page, and the service that declares it is not among the source files.
  The fields are the ones the page reads, typed as the spec's data model says: a box has
  a numeric \<open>id\<close>, names and numbers that are optional strings, and optional weights; an
  article line has optional descriptions, quantities and weights. Field names carry a
  prefix (\<open>b_\<close>, \<open>l_\<close>, \<open>t_\<close>) where two records of the page share a name.
\<close>

record Box =
  b_id :: int
  b_box_id :: "string option"
  b_box_number :: "string option"
  b_article :: "string option"
  b_batch_number :: "string option"
  b_lot_number :: "string option"
  b_transaction_no :: "string option"
  b_net_weight :: "jsnum option"
  b_gross_weight :: "jsnum option"

record Line =
  l_item_desc_raw :: "string option"
  l_item_description :: "string option"
  l_batch_number :: "string option"
  l_lot_number :: "string option"
  l_net_weight :: "jsnum option"
  l_total_weight :: "jsnum option"
  l_qty :: "jsnum option"
  l_quantity :: "jsnum option"

record Transfer =
  t_id :: int
  t_transfer_no :: "string option"
  t_challan_no :: "string option"
  t_to_warehouse :: "string option"
  t_to_site_code :: "string option"
  t_boxes :: "Box list option"
  t_lines :: "Line list option"

text \<open>The issue form (three text inputs) and a recorded issue.\<close>

record IssueForm =
  form_actual_qty :: string
  form_actual_total_weight :: string
  form_remarks :: string

record LineIssue =
  actual_qty :: jsnum
  actual_total_weight :: jsnum
  remarks :: string

text \<open>
  The \<open>useState\<close> cells of \<open>TransferInPage\<close> that the reconciliation reads or writes. The
  text field \<open>transferNumber\<close> and the flag \<open>showScanner\<close> are left to the scanner section.
  A \<open>Record<number, boolean>\<close> is a map to \<open>bool\<close>; a key that was never set or was
  deleted is \<open>None\<close>.
\<close>

record page_state =
  transferData :: "Transfer option"
  loading :: bool
  boxesMatchMap :: "int \<rightharpoonup> bool"
  linesMatchMap :: "nat \<rightharpoonup> bool"
  linesIssueMap :: "nat \<rightharpoonup> LineIssue"
  issueOpenIndex :: "nat option"
  issueForm :: IssueForm
  boxCondition :: string
  conditionRemarks :: string

definition blank_form :: IssueForm where
  "blank_form = \<lparr> form_actual_qty = [], form_actual_total_weight = [], form_remarks = [] \<rparr>"

definition initial_state :: page_state where
  "initial_state =
     \<lparr> transferData = None, loading = False, boxesMatchMap = Map.empty,
       linesMatchMap = Map.empty, linesIssueMap = Map.empty, issueOpenIndex = None,
       issueForm = blank_form, boxCondition = ''Good'', conditionRemarks = [] \<rparr>"

subsection \<open>Derived state\<close>

definition boxes :: "page_state \<Rightarrow> Box list" where
  "boxes s = (case transferData s of None \<Rightarrow> []
              | Some t \<Rightarrow> (case t_boxes t of None \<Rightarrow> [] | Some bs \<Rightarrow> bs))"

definition lines :: "page_state \<Rightarrow> Line list" where
  "lines s = (case transferData s of None \<Rightarrow> []
              | Some t \<Rightarrow> (case t_lines t of None \<Rightarrow> [] | Some ls \<Rightarrow> ls))"

definition truthy_flag :: "bool option \<Rightarrow> bool" where
  "truthy_flag v = (v = Some True)"

definition box_matched :: "page_state \<Rightarrow> Box \<Rightarrow> bool" where
  "box_matched s b = truthy_flag (boxesMatchMap s (b_id b))"

definition line_matched :: "page_state \<Rightarrow> nat \<Rightarrow> bool" where
  "line_matched s i = truthy_flag (linesMatchMap s i)"

definition line_issued :: "page_state \<Rightarrow> nat \<Rightarrow> bool" where
  "line_issued s i = (linesIssueMap s i \<noteq> None)"

definition totalBoxes :: "page_state \<Rightarrow> nat" where
  "totalBoxes s = length (boxes s)"

definition totalLines :: "page_state \<Rightarrow> nat" where
  "totalLines s = length (lines s)"

definition totalItems :: "page_state \<Rightarrow> nat" where
  "totalItems s = totalBoxes s + totalLines s"

definition matchedBoxes :: "page_state \<Rightarrow> nat" where
  "matchedBoxes s = length (filter (box_matched s) (boxes s))"

definition matchedLines :: "page_state \<Rightarrow> nat" where
  "matchedLines s = length (filter (line_matched s) [0 ..< totalLines s])"

definition issuedLines :: "page_state \<Rightarrow> nat" where
  "issuedLines s = length (filter (line_issued s) [0 ..< totalLines s])"

definition resolvedLines :: "page_state \<Rightarrow> nat" where
  "resolvedLines s = matchedLines s + issuedLines s"

definition totalMatched :: "page_state \<Rightarrow> nat" where
  "totalMatched s = matchedBoxes s + resolvedLines s"

definition allMatched :: "page_state \<Rightarrow> bool" where
  "allMatched s = (totalItems s > 0 \<and> totalMatched s = totalItems s)"

text \<open>
  \<open>groupedBoxes[articleName]\<close>: the boxes whose \<open>article || "Unknown Article"\<close> is the
  name. (For an article named like a property inherited from \<open>Object.prototype\<close> the
  memo throws while the page renders; the model gives the boxes of that name.)
\<close>

definition group_name :: "Box \<Rightarrow> string" where
  "group_name b = (if truthy_str (b_article b) then the (b_article b) else ''Unknown Article'')"

definition groupedBoxes :: "page_state \<Rightarrow> string \<Rightarrow> Box list" where
  "groupedBoxes s articleName = filter (\<lambda>b. group_name b = articleName) (boxes s)"

text \<open>
  The confirm button is rendered only while a transfer is loaded, with
  \<open>disabled={loading || totalItems === 0 || !allMatched}\<close>.
\<close>

definition confirm_disabled :: "page_state \<Rightarrow> bool" where
  "confirm_disabled s = (loading s \<or> totalItems s = 0 \<or> \<not> allMatched s)"

definition confirm_enabled :: "page_state \<Rightarrow> bool" where
  "confirm_enabled s = (transferData s \<noteq> None \<and> \<not> confirm_disabled s)"

subsection \<open>Handlers\<close>

text \<open>
  \<open>loadTransferDetails\<close> in its three moments: the call (a blank number is refused with
  a toast and nothing else happens), the response, and the failure.
\<close>

definition load_start :: "page_state \<Rightarrow> string \<Rightarrow> page_state" where
  "load_start s transferNo = (if trim transferNo = [] then s else s\<lparr>loading := True\<rparr>)"

definition load_success :: "page_state \<Rightarrow> Transfer \<Rightarrow> page_state" where
  "load_success s response =
     s\<lparr> transferData := Some response,
        boxesMatchMap :=
          foldl (\<lambda>boxMap b. boxMap(b_id b \<mapsto> False)) Map.empty
            (case t_boxes response of None \<Rightarrow> [] | Some bs \<Rightarrow> bs),
        linesMatchMap :=
          foldl (\<lambda>lineMap i. lineMap(i \<mapsto> False)) Map.empty
            [0 ..< length (case t_lines response of None \<Rightarrow> [] | Some ls \<Rightarrow> ls)],
        loading := False \<rparr>"

definition load_failure :: "page_state \<Rightarrow> page_state" where
  "load_failure s = s\<lparr>transferData := None, loading := False\<rparr>"

definition handleAcknowledgeBox :: "page_state \<Rightarrow> int \<Rightarrow> page_state" where
  "handleAcknowledgeBox s boxId = s\<lparr>boxesMatchMap := (boxesMatchMap s)(boxId \<mapsto> True)\<rparr>"

definition handleAcknowledgeArticleBoxes :: "page_state \<Rightarrow> string \<Rightarrow> page_state" where
  "handleAcknowledgeArticleBoxes s articleName =
     (if groupedBoxes s articleName = [] then s
      else s\<lparr>boxesMatchMap :=
               foldl (\<lambda>newMap b. newMap(b_id b \<mapsto> True)) (boxesMatchMap s)
                 (groupedBoxes s articleName)\<rparr>)"

definition handleAcknowledgeLine :: "page_state \<Rightarrow> nat \<Rightarrow> page_state" where
  "handleAcknowledgeLine s lineIndex = s\<lparr>linesMatchMap := (linesMatchMap s)(lineIndex \<mapsto> True)\<rparr>"

text \<open>
  \<open>handleOpenIssue\<close> fills the form with \<open>String(line.qty || line.quantity || "")\<close> and
  \<open>String(line.total_weight || "")\<close>. \<open>String\<close> of a number is the engine's conversion
  and is a parameter here. The index is below \<open>lines.length\<close> wherever the page calls the
  handler; elsewhere \<open>line.qty\<close> throws.
\<close>

definition handleOpenIssue ::
  "(jsnum \<Rightarrow> string) \<Rightarrow> page_state \<Rightarrow> nat \<Rightarrow> js_error + page_state" where
  "handleOpenIssue String s lineIndex =
     (if lineIndex < length (lines s) then
        (let line = lines s ! lineIndex in
           Inr (s\<lparr> issueOpenIndex := Some lineIndex,
                   issueForm :=
                     \<lparr> form_actual_qty =
                         (if truthy_num (l_qty line) then String (the (l_qty line))
                          else if truthy_num (l_quantity line) then String (the (l_quantity line))
                          else []),
                       form_actual_total_weight =
                         (if truthy_num (l_total_weight line) then String (the (l_total_weight line))
                          else []),
                       form_remarks = [] \<rparr> \<rparr>))
      else Inl TypeError)"

text \<open>
  \<open>handleSubmitIssue\<close>. The toast it raises is returned with the state: the destructive
  \<open>Error\<close> toast of the validation, or \<open>Issue Reported\<close>.
\<close>

datatype toast = Toast string bool

definition handleSubmitIssue :: "page_state \<Rightarrow> nat \<Rightarrow> page_state \<times> toast" where
  "handleSubmitIssue s lineIndex =
     (let actualQty = parseFloat (form_actual_qty (issueForm s));
          actualWeight = parseFloat (form_actual_total_weight (issueForm s))
      in if isNaN actualQty \<and> isNaN actualWeight then (s, Toast ''Error'' True)
         else
           (s\<lparr> linesIssueMap := (linesIssueMap s)(lineIndex \<mapsto>
                   \<lparr> actual_qty = (if isNaN actualQty then Num 0 else actualQty),
                     actual_total_weight = (if isNaN actualWeight then Num 0 else actualWeight),
                     remarks = trim (form_remarks (issueForm s)) \<rparr>),
                 linesMatchMap := (linesMatchMap s)(lineIndex := None),
                 issueOpenIndex := None,
                 issueForm := blank_form \<rparr>,
            Toast ''Issue Reported'' False))"

definition handleCancelIssue :: "page_state \<Rightarrow> page_state" where
  "handleCancelIssue s = s\<lparr>issueOpenIndex := None, issueForm := blank_form\<rparr>"

definition handleAcknowledgeAll :: "page_state \<Rightarrow> page_state" where
  "handleAcknowledgeAll s =
     s\<lparr> boxesMatchMap := foldl (\<lambda>newBoxMap b. newBoxMap(b_id b \<mapsto> True)) (boxesMatchMap s) (boxes s),
        linesMatchMap :=
          foldl (\<lambda>newLineMap i. newLineMap(i \<mapsto> True)) (linesMatchMap s) [0 ..< length (lines s)] \<rparr>"

definition handleAcknowledgeAllLines :: "page_state \<Rightarrow> page_state" where
  "handleAcknowledgeAllLines s =
     s\<lparr> linesMatchMap :=
          foldl (\<lambda>newMap i. if linesIssueMap s i = None then newMap(i \<mapsto> True) else newMap)
            (linesMatchMap s) [0 ..< length (lines s)] \<rparr>"

definition handleAcknowledgeAllBoxes :: "page_state \<Rightarrow> page_state" where
  "handleAcknowledgeAllBoxes s =
     s\<lparr> boxesMatchMap := foldl (\<lambda>newMap b. newMap(b_id b \<mapsto> True)) (boxesMatchMap s) (boxes s) \<rparr>"

subsection \<open>Events of the page\<close>

text \<open>
  What can happen to the page: a click on a control, an edit of a field, the start of a
  lookup, and the arrival of a response. \<open>offered e s\<close> says that the control of \<open>e\<close> is
  rendered and enabled in state \<open>s\<close>, as the JSX conditions say; a lookup can start at any
  moment (the Enter key and the scanner are not guarded), and a response or a failure is
  taken to arrive at any moment. \<open>fire\<close> is the handler of the event. The states the
  page can reach are those that events which are offered lead to from the initial one.
\<close>

datatype event =
    LoadStart string
  | LoadSuccess Transfer
  | LoadFailure
  | AcknowledgeBox int
  | AcknowledgeArticleBoxes string
  | AcknowledgeLine nat
  | OpenIssue nat
  | EditIssueForm IssueForm
  | SubmitIssue nat
  | CancelIssue
  | AcknowledgeAll
  | AcknowledgeAllLines
  | AcknowledgeAllBoxes
  | SetBoxCondition string
  | SetConditionRemarks string
  | ConfirmStart
  | ConfirmFinish

definition issue_form_shown :: "page_state \<Rightarrow> bool" where
  "issue_form_shown s =
     (transferData s \<noteq> None \<and>
      (case issueOpenIndex s of None \<Rightarrow> False | Some i \<Rightarrow> i < totalLines s))"

fun offered :: "event \<Rightarrow> page_state \<Rightarrow> bool" where
  "offered (LoadStart transferNo) s = True"
| "offered (LoadSuccess response) s = True"
| "offered LoadFailure s = True"
| "offered (AcknowledgeBox boxId) s =
     (transferData s \<noteq> None \<and> list_ex (\<lambda>b. b_id b = boxId \<and> \<not> box_matched s b) (boxes s))"
| "offered (AcknowledgeArticleBoxes articleName) s =
     (transferData s \<noteq> None \<and> groupedBoxes s articleName \<noteq> [] \<and>
      length (filter (box_matched s) (groupedBoxes s articleName)) \<noteq> length (groupedBoxes s articleName))"
| "offered (AcknowledgeLine i) s =
     (transferData s \<noteq> None \<and> i < totalLines s \<and> \<not> line_matched s i \<and> \<not> line_issued s i)"
| "offered (OpenIssue i) s =
     (transferData s \<noteq> None \<and> i < totalLines s \<and> \<not> line_matched s i \<and> \<not> line_issued s i)"
| "offered (EditIssueForm f) s = issue_form_shown s"
| "offered (SubmitIssue i) s = (issue_form_shown s \<and> issueOpenIndex s = Some i)"
| "offered CancelIssue s = issue_form_shown s"
| "offered AcknowledgeAll s = (transferData s \<noteq> None \<and> \<not> allMatched s \<and> totalItems s > 0)"
| "offered AcknowledgeAllLines s =
     (transferData s \<noteq> None \<and> totalLines s > 0 \<and> resolvedLines s < totalLines s)"
| "offered AcknowledgeAllBoxes s =
     (transferData s \<noteq> None \<and> totalBoxes s > 0 \<and> matchedBoxes s < totalBoxes s)"
| "offered (SetBoxCondition c) s = (transferData s \<noteq> None)"
| "offered (SetConditionRemarks r) s = (transferData s \<noteq> None)"
| "offered ConfirmStart s = confirm_enabled s"
| "offered ConfirmFinish s = True"

fun fire :: "(jsnum \<Rightarrow> string) \<Rightarrow> event \<Rightarrow> page_state \<Rightarrow> page_state" where
  "fire String (LoadStart transferNo) s = load_start s transferNo"
| "fire String (LoadSuccess response) s = load_success s response"
| "fire String LoadFailure s = load_failure s"
| "fire String (AcknowledgeBox boxId) s = handleAcknowledgeBox s boxId"
| "fire String (AcknowledgeArticleBoxes articleName) s = handleAcknowledgeArticleBoxes s articleName"
| "fire String (AcknowledgeLine i) s = handleAcknowledgeLine s i"
| "fire String (OpenIssue i) s = (case handleOpenIssue String s i of Inl e \<Rightarrow> s | Inr s' \<Rightarrow> s')"
| "fire String (EditIssueForm f) s = s\<lparr>issueForm := f\<rparr>"
| "fire String (SubmitIssue i) s = fst (handleSubmitIssue s i)"
| "fire String CancelIssue s = handleCancelIssue s"
| "fire String AcknowledgeAll s = handleAcknowledgeAll s"
| "fire String AcknowledgeAllLines s = handleAcknowledgeAllLines s"
| "fire String AcknowledgeAllBoxes s = handleAcknowledgeAllBoxes s"
| "fire String (SetBoxCondition c) s = s\<lparr>boxCondition := c\<rparr>"
| "fire String (SetConditionRemarks r) s = s\<lparr>conditionRemarks := r\<rparr>"
| "fire String ConfirmStart s = s\<lparr>loading := True\<rparr>"
| "fire String ConfirmFinish s = s\<lparr>loading := False\<rparr>"

inductive reachable :: "page_state \<Rightarrow> bool" where
  initial: "reachable initial_state"
| step: "reachable s \<Longrightarrow> offered e s \<Longrightarrow> reachable (fire String e s)"

fun run :: "(jsnum \<Rightarrow> string) \<Rightarrow> event list \<Rightarrow> page_state \<Rightarrow> page_state option" where
  "run String [] s = Some s"
| "run String (e # es) s = (if offered e s then run String es (fire String e s) else None)"

text \<open>
  Two counts read off the maps of a state: the items that no map marks (a box without a
  true entry in \<open>boxesMatchMap\<close>, a line with neither a true entry in \<open>linesMatchMap\<close>
  nor an entry in \<open>linesIssueMap\<close>), and the lines that \<open>linesMatchMap\<close> and
  \<open>linesIssueMap\<close> mark at once. The invariant of the page: where a line is marked
  twice, every item is marked.
\<close>

definition unmarked_count :: "page_state \<Rightarrow> nat" where
  "unmarked_count s =
     length (filter (\<lambda>b. \<not> box_matched s b) (boxes s)) +
     length (filter (\<lambda>i. \<not> line_matched s i \<and> \<not> line_issued s i) [0 ..< totalLines s])"

definition doubly_marked :: "page_state \<Rightarrow> nat" where
  "doubly_marked s = length (filter (\<lambda>i. line_matched s i \<and> line_issued s i) [0 ..< totalLines s])"

definition no_pending_behind_double :: "page_state \<Rightarrow> bool" where
  "no_pending_behind_double s =
     ((\<exists>i < totalLines s. line_matched s i \<and> line_issued s i) \<longrightarrow>
      (\<forall>b \<in> set (boxes s). box_matched s b) \<and>
      (\<forall>i < totalLines s. line_matched s i \<or> line_issued s i))"

subsection \<open>Pending items\<close>

text \<open>
  The specification gives every item (a box or an article line) a state: \<open>Pending\<close> from
  the moment its transfer is loaded until the operator acknowledges it or reports an
  issue on it. The Pending items are kept beside the page state and follow the events,
  not the maps: a loaded response makes all its boxes (by \<open>id\<close>, as the page keys them)
  and all its lines (by index) Pending; an acknowledgement, single or bulk, and a
  reported issue (a submission the handler accepts, with the toast \<open>Issue Reported\<close>)
  take the items they act on out. A bulk acknowledgement takes out every Pending item
  of its scope, as the bulk transition of the specification does. No event puts an item
  back: the page offers the issue form on a line only while the line is neither
  acknowledged nor issued. After a failed lookup there are no items.
\<close>

record pending =
  pending_boxes :: "int set"
  pending_lines :: "nat set"

definition none_pending :: pending where
  "none_pending = \<lparr>pending_boxes = {}, pending_lines = {}\<rparr>"

definition issue_reported :: "page_state \<Rightarrow> nat \<Rightarrow> bool" where
  "issue_reported s i = (snd (handleSubmitIssue s i) = Toast ''Issue Reported'' False)"

fun pending_after :: "event \<Rightarrow> page_state \<Rightarrow> pending \<Rightarrow> pending" where
  "pending_after (LoadSuccess response) s P =
     \<lparr> pending_boxes = b_id ` set (case t_boxes response of None \<Rightarrow> [] | Some bs \<Rightarrow> bs),
       pending_lines = {0 ..< length (case t_lines response of None \<Rightarrow> [] | Some ls \<Rightarrow> ls)} \<rparr>"
| "pending_after LoadFailure s P = none_pending"
| "pending_after (AcknowledgeBox boxId) s P = P\<lparr>pending_boxes := pending_boxes P - {boxId}\<rparr>"
| "pending_after (AcknowledgeArticleBoxes articleName) s P =
     P\<lparr>pending_boxes := pending_boxes P - b_id ` set (groupedBoxes s articleName)\<rparr>"
| "pending_after (AcknowledgeLine i) s P = P\<lparr>pending_lines := pending_lines P - {i}\<rparr>"
| "pending_after (SubmitIssue i) s P =
     (if issue_reported s i then P\<lparr>pending_lines := pending_lines P - {i}\<rparr> else P)"
| "pending_after AcknowledgeAll s P = none_pending"
| "pending_after AcknowledgeAllLines s P = P\<lparr>pending_lines := {}\<rparr>"
| "pending_after AcknowledgeAllBoxes s P = P\<lparr>pending_boxes := {}\<rparr>"
| "pending_after (LoadStart transferNo) s P = P"
| "pending_after (OpenIssue i) s P = P"
| "pending_after (EditIssueForm f) s P = P"
| "pending_after CancelIssue s P = P"
| "pending_after (SetBoxCondition c) s P = P"
| "pending_after (SetConditionRemarks r) s P = P"
| "pending_after ConfirmStart s P = P"
| "pending_after ConfirmFinish s P = P"

text \<open>
  \<open>tracked s P\<close>: the page can reach the state \<open>s\<close>, and \<open>P\<close> are the items Pending after
  the events that led there.
\<close>

inductive tracked :: "page_state \<Rightarrow> pending \<Rightarrow> bool" where
  initial: "tracked initial_state none_pending"
| step: "tracked s P \<Longrightarrow> offered e s \<Longrightarrow> tracked (fire String e s) (pending_after e s P)"

text \<open>
  \<open>count(Pending)\<close> of the specification, over the boxes and lines of the loaded
  transfer.
\<close>

definition count_Pending :: "page_state \<Rightarrow> pending \<Rightarrow> nat" where
  "count_Pending s P =
     length (filter (\<lambda>b. b_id b \<in> pending_boxes P) (boxes s)) +
     length (filter (\<lambda>i. i \<in> pending_lines P) [0 ..< totalLines s])"

text \<open>
  The number of Pending lines that have an entry in \<open>linesIssueMap\<close>. The operator has
  not acted on such a line since its transfer was loaded: the entry was recorded on the
  line of that index of an earlier transfer, and \<open>loadTransferDetails\<close>, which starts the
  two acknowledgement maps afresh, left it in place.
\<close>

definition leftover_issues :: "page_state \<Rightarrow> pending \<Rightarrow> nat" where
  "leftover_issues s P =
     length (filter (\<lambda>i. i \<in> pending_lines P \<and> line_issued s i) [0 ..< totalLines s])"

text \<open>
  How the maps of a state stand to the Pending items: a box is Pending exactly when it
  is not marked acknowledged; a Pending line is not marked acknowledged, and a line that
  is not Pending is marked acknowledged or issued.
\<close>

definition pending_agrees :: "page_state \<Rightarrow> pending \<Rightarrow> bool" where
  "pending_agrees s P =
     ((\<forall>b \<in> set (boxes s). b_id b \<in> pending_boxes P \<longleftrightarrow> \<not> box_matched s b) \<and>
      (\<forall>i < totalLines s.
         (i \<in> pending_lines P \<longrightarrow> \<not> line_matched s i) \<and>
         (i \<notin> pending_lines P \<longrightarrow> line_matched s i \<or> line_issued s i)))"

subsection \<open>Transfers and states for the scenarios\<close>

text \<open>
  \<open>with_issue_form s i f\<close> is the state after the issue form was opened on line \<open>i\<close> of
  \<open>s\<close> and filled with \<open>f\<close>.
\<close>

definition plain_box :: "int \<Rightarrow> Box" where
  "plain_box n =
     \<lparr> b_id = n, b_box_id = None, b_box_number = None, b_article = Some ''Rice'',
       b_batch_number = None, b_lot_number = None, b_transaction_no = None,
       b_net_weight = None, b_gross_weight = None \<rparr>"

definition plain_line :: "string \<Rightarrow> Line" where
  "plain_line d =
     \<lparr> l_item_desc_raw = Some d, l_item_description = None, l_batch_number = None,
       l_lot_number = None, l_net_weight = None, l_total_weight = None, l_qty = None,
       l_quantity = None \<rparr>"

definition transfer_of :: "Box list \<Rightarrow> Line list \<Rightarrow> Transfer" where
  "transfer_of bs ls =
     \<lparr> t_id = 7, t_transfer_no = Some ''T1'', t_challan_no = None, t_to_warehouse = Some ''W2'',
       t_to_site_code = None, t_boxes = Some bs, t_lines = Some ls \<rparr>"

definition with_issue_form :: "page_state \<Rightarrow> nat \<Rightarrow> IssueForm \<Rightarrow> page_state" where
  "with_issue_form s i f = s\<lparr>issueOpenIndex := Some i, issueForm := f\<rparr>"

definition two_lines_loaded :: page_state where
  "two_lines_loaded =
     load_success (load_start initial_state ''T1'')
       (transfer_of [] [plain_line ''Sugar'', plain_line ''Salt''])"

definition first_line_issued :: page_state where
  "first_line_issued =
     fst (handleSubmitIssue
            (with_issue_form two_lines_loaded 0
               \<lparr> form_actual_qty = ''5'', form_actual_total_weight = [], form_remarks = [] \<rparr>) 0)"

definition issued_then_acknowledged_all :: page_state where
  "issued_then_acknowledged_all = handleAcknowledgeAll first_line_issued"

definition confirming :: page_state where
  "confirming = (handleAcknowledgeAll two_lines_loaded)\<lparr>loading := True\<rparr>"

text \<open>
  After the issue on the first line of \<open>T1\<close>, a second transfer \<open>T2\<close> with one line is
  looked up and loaded.
\<close>

definition second_transfer :: Transfer where
  "second_transfer = (transfer_of [] [plain_line ''Flour''])\<lparr>t_id := 8, t_transfer_no := Some ''T2''\<rparr>"

definition second_transfer_loaded :: page_state where
  "second_transfer_loaded = load_success (load_start first_line_issued ''T2'') second_transfer"

subsection \<open>\<open>handleConfirmReceipt\<close>: the submission\<close>















section \<open>The transfer-number scanner: \<open>handleTransferQRScan\<close>\<close>

text \<open>
  What \<open>JSON.parse\<close> returns. A number is the value of its double. An object lists each
  key once (a repeated key keeps its last value, as \<open>JSON.parse\<close> does).
\<close>

datatype json =
    JNull
  | JBool bool
  | JNumber rat
  | JString string
  | JArray "json list"
  | JObject "(string \<times> json) list"

definition truthy_json :: "json option \<Rightarrow> bool" where
  "truthy_json v =
     (case v of
        None \<Rightarrow> False
      | Some JNull \<Rightarrow> False
      | Some (JBool b) \<Rightarrow> b
      | Some (JNumber r) \<Rightarrow> r \<noteq> 0
      | Some (JString s) \<Rightarrow> s \<noteq> []
      | Some (JArray xs) \<Rightarrow> True
      | Some (JObject kvs) \<Rightarrow> True)"

text \<open>
  \<open>qrData.transfer_no\<close> and \<open>qrData.challan_no\<close>: on \<open>null\<close> the access throws a
  \<open>TypeError\<close>; an object gives the value of its key or \<open>undefined\<close>; a boolean, a number,
  a string and an array have no property of either name.
\<close>

definition get_property :: "json \<Rightarrow> string \<Rightarrow> js_error + json option" where
  "get_property qrData k =
     (case qrData of
        JNull \<Rightarrow> Inl TypeError
      | JObject kvs \<Rightarrow> Inr (map_of kvs k)
      | _ \<Rightarrow> Inr None)"

text \<open>
  What one call of \<open>loadTransferDetails\<close> does first. It is an \<open>async\<close> function: called
  with a value that is not a string, \<open>transferNo.trim()\<close> throws inside it and the call
  returns a rejected promise, with no toast and no lookup. A string that is blank after
  \<open>trim\<close> is refused with the toast \<open>Please enter a transfer number\<close>. Any other string
  is looked up.
\<close>

datatype load_outcome = LookupStarted string | BlankRefused | PromiseRejected js_error

definition loadTransferDetails :: "json \<Rightarrow> load_outcome" where
  "loadTransferDetails transferNo =
     (case transferNo of
        JString s \<Rightarrow> if trim s = [] then BlankRefused else LookupStarted s
      | _ \<Rightarrow> PromiseRejected TypeError)"

text \<open>
  The effects of the handler: \<open>setShowScanner(false)\<close>, the value given to
  \<open>setTransferNumber\<close>, and the call of \<open>loadTransferDetails\<close>.
\<close>

record scan_effects =
  showScanner :: bool
  transferNumber :: json
  load :: load_outcome

definition use_transfer_no :: "json \<Rightarrow> scan_effects" where
  "use_transfer_no transferNo =
     \<lparr> showScanner = False, transferNumber = transferNo, load = loadTransferDetails transferNo \<rparr>"

text \<open>
  \<open>handleTransferQRScan\<close>. The first argument is what \<open>JSON.parse(decodedText)\<close> gives,
  \<open>None\<close> when it throws; the \<open>catch\<close> takes that \<open>SyntaxError\<close> and the \<open>TypeError\<close> of a
  property read on \<open>null\<close>, and the raw text is used.
\<close>

definition handleTransferQRScan :: "json option \<Rightarrow> string \<Rightarrow> scan_effects" where
  "handleTransferQRScan parsed decodedText =
     (case parsed of
        None \<Rightarrow> use_transfer_no (JString decodedText)
      | Some qrData \<Rightarrow>
          (case get_property qrData ''transfer_no'' of
             Inl e \<Rightarrow> use_transfer_no (JString decodedText)
           | Inr transfer_no \<Rightarrow>
               if truthy_json transfer_no then use_transfer_no (the transfer_no)
               else
                 (case get_property qrData ''challan_no'' of
                    Inl e \<Rightarrow> use_transfer_no (JString decodedText)
                  | Inr challan_no \<Rightarrow>
                      if truthy_json challan_no then use_transfer_no (the challan_no)
                      else use_transfer_no (JString decodedText))))"

text \<open>The text \<open>{"transfer_no":""}\<close>.\<close>

definition qr_empty_transfer_no :: string where
  "qr_empty_transfer_no =
     ''{'' @ [CHR 0x22] @ ''transfer_no'' @ [CHR 0x22] @ '':'' @ [CHR 0x22, CHR 0x22] @ ''}''"

text \<open>The key, if any, whose value the handler takes from a parsed text.\<close>

definition has_truthy_key :: "json option \<Rightarrow> string \<Rightarrow> bool" where
  "has_truthy_key parsed k =
     (case parsed of Some (JObject kvs) \<Rightarrow> truthy_json (map_of kvs k) | _ \<Rightarrow> False)"

definition key_value :: "json option \<Rightarrow> string \<Rightarrow> json" where
  "key_value parsed k = (case parsed of Some (JObject kvs) \<Rightarrow> the (map_of kvs k) | _ \<Rightarrow> JNull)"

section \<open>\<open>mergePageResults\<close> on a store\<close>

text \<open>
  The value model above cannot say that the argument is left alone. Here the objects
  live in a store: a purchase-order object at an address, its field \<open>articles\<close> a
  reference to an array, an array at an address. Addresses from \<open>next_addr\<close> on are free.
  \<open>pageResults\<close> and the \<open>purchase_orders\<close> arrays are only read by the function (it has no
  assignment to them and calls no method on them); they are given as lists of references
  to the purchase-order objects. Article objects are never read or written, so an array
  holds them as values of any type.
\<close>

type_synonym addr = nat

record 'e store =
  objects :: "addr \<rightharpoonup> addr POExtractResponse"
  arrays :: "addr \<rightharpoonup> 'e list"
  next_addr :: addr

definition new_array :: "'e store \<Rightarrow> 'e list \<Rightarrow> 'e store \<times> addr" where
  "new_array h xs =
     (h\<lparr>arrays := (arrays h)(next_addr h \<mapsto> xs), next_addr := Suc (next_addr h)\<rparr>, next_addr h)"

definition new_object :: "'e store \<Rightarrow> addr POExtractResponse \<Rightarrow> 'e store \<times> addr" where
  "new_object h po =
     (h\<lparr>objects := (objects h)(next_addr h \<mapsto> po), next_addr := Suc (next_addr h)\<rparr>, next_addr h)"

text \<open>
  \<open>po.articles || []\<close>, read through the store. A reference that is no array makes the
  spread \<open>[...articles]\<close> throw.
\<close>

definition read_articles :: "'e store \<Rightarrow> addr POExtractResponse \<Rightarrow> js_error + 'e list" where
  "read_articles h po =
     (case articles po of
        None \<Rightarrow> Inr []
      | Some r \<Rightarrow> (case arrays h r of None \<Rightarrow> Inl TypeError | Some xs \<Rightarrow> Inr xs))"

text \<open>\<open>allPOs.push({ ...po, articles: [...articles] })\<close>: a new array, then a new object.\<close>

definition push_copy :: "'e store \<Rightarrow> addr POExtractResponse \<Rightarrow> 'e list \<Rightarrow> 'e store \<times> addr" where
  "push_copy h po arts =
     (case new_array h arts of (h1, r) \<Rightarrow> new_object h1 (po\<lparr>articles := Some r\<rparr>))"

text \<open>
  \<open>existing.articles = [...(existing.articles || []), ...articles]\<close> and the fill loop:
  a new array, and the object at \<open>existing\<close> overwritten in place.
\<close>

definition merge_into_store ::
  "'e store \<Rightarrow> addr \<Rightarrow> addr POExtractResponse \<Rightarrow> 'e list \<Rightarrow> 'e store \<times> (js_error + unit)" where
  "merge_into_store h existing po arts =
     (case objects h existing of
        None \<Rightarrow> (h, Inl TypeError)
      | Some e \<Rightarrow>
          (case read_articles h e of
             Inl err \<Rightarrow> (h, Inl err)
           | Inr old \<Rightarrow>
               (case new_array h (old @ arts) of (h1, r) \<Rightarrow>
                  (h1\<lparr>objects := (objects h1)(existing \<mapsto> fillFields (e\<lparr>articles := Some r\<rparr>) po)\<rparr>,
                   Inr ()))))"

type_synonym store_merge_state = "addr list \<times> (string \<rightharpoonup> nat)"

definition merge_po_store ::
  "'e store \<Rightarrow> store_merge_state \<Rightarrow> addr \<Rightarrow> 'e store \<times> (js_error + store_merge_state)" where
  "merge_po_store h st po_ref =
     (case st of (allPOs, seenPONumbers) \<Rightarrow>
        (case objects h po_ref of
           None \<Rightarrow> (h, Inl TypeError)
         | Some po \<Rightarrow>
             (case read_articles h po of
                Inl err \<Rightarrow> (h, Inl err)
              | Inr arts \<Rightarrow>
                  if poNum po = None \<and> arts = [] then (h, Inr (allPOs, seenPONumbers))
                  else (case poNum po of
                      Some k \<Rightarrow>
                        if in_seen seenPONumbers k then
                          (case seenPONumbers k of
                             Some i \<Rightarrow>
                               if i < length allPOs then
                                 (case merge_into_store h (allPOs ! i) po arts of
                                    (h', Inl err) \<Rightarrow> (h', Inl err)
                                  | (h', Inr u) \<Rightarrow> (h', Inr (allPOs, seenPONumbers)))
                               else (h, Inl TypeError)
                           | None \<Rightarrow> (h, Inl TypeError))
                        else
                          (case push_copy h po arts of (h', a) \<Rightarrow>
                             (h', Inr (allPOs @ [a], seenPONumbers(k \<mapsto> length allPOs))))
                    | None \<Rightarrow>
                        if length allPOs > 0 then
                          (case merge_into_store h (allPOs ! (length allPOs - 1)) po arts of
                             (h', Inl err) \<Rightarrow> (h', Inl err)
                           | (h', Inr u) \<Rightarrow> (h', Inr (allPOs, seenPONumbers)))
                        else
                          (case push_copy h po arts of (h', a) \<Rightarrow>
                             (h', Inr (allPOs @ [a], seenPONumbers)))))))"

fun merge_pos_store ::
  "'e store \<Rightarrow> store_merge_state \<Rightarrow> addr list \<Rightarrow> 'e store \<times> (js_error + store_merge_state)" where
  "merge_pos_store h st [] = (h, Inr st)"
| "merge_pos_store h st (po_ref # rest) =
     (case merge_po_store h st po_ref of
        (h', Inl err) \<Rightarrow> (h', Inl err)
      | (h', Inr st') \<Rightarrow> merge_pos_store h' st' rest)"

fun merge_pages_store ::
  "'e store \<Rightarrow> store_merge_state \<Rightarrow> addr PageExtractResponse list \<Rightarrow>
     'e store \<times> (js_error + store_merge_state)" where
  "merge_pages_store h st [] = (h, Inr st)"
| "merge_pages_store h st (page # pages) =
     (case purchase_orders page of
        None \<Rightarrow> merge_pages_store h st pages
      | Some pos \<Rightarrow>
          if pos = [] then merge_pages_store h st pages
          else (case merge_pos_store h st pos of
                  (h', Inl err) \<Rightarrow> (h', Inl err)
                | (h', Inr st') \<Rightarrow> merge_pages_store h' st' pages))"

definition mergePageResults_store ::
  "'e store \<Rightarrow> addr PageExtractResponse list \<Rightarrow> 'e store \<times> (js_error + addr list)" where
  "mergePageResults_store h pageResults =
     (case merge_pages_store h ([], Map.empty) pageResults of
        (h', Inl err) \<Rightarrow> (h', Inl err)
      | (h', Inr st) \<Rightarrow> (h', Inr (fst st)))"

text \<open>
  Reading a purchase order out of the store as a value of the first model, and a page
  likewise.
\<close>

definition with_articles :: "'a POExtractResponse \<Rightarrow> 'b option \<Rightarrow> 'b POExtractResponse" where
  "with_articles po a =
     \<lparr> po_number = po_number po, supplier_name = supplier_name po,
       customer_name = customer_name po, source_location = source_location po,
       destination_location = destination_location po, purchased_by = purchased_by po,
       currency = currency po, total_amount = total_amount po, tax_amount = tax_amount po,
       discount_amount = discount_amount po, po_quantity = po_quantity po, articles = a \<rparr>"

definition value_of :: "'e store \<Rightarrow> addr \<Rightarrow> 'e list POExtractResponse option" where
  "value_of h a =
     (case objects h a of
        None \<Rightarrow> None
      | Some po \<Rightarrow>
          (case articles po of
             None \<Rightarrow> Some (with_articles po None)
           | Some r \<Rightarrow>
               (case arrays h r of None \<Rightarrow> None | Some xs \<Rightarrow> Some (with_articles po (Some xs)))))"

definition page_value ::
  "'e store \<Rightarrow> addr PageExtractResponse \<Rightarrow> 'e list POExtractResponse PageExtractResponse" where
  "page_value h page =
     \<lparr> job_id = job_id page, page_num = page_num page, total_pages = total_pages page,
       purchase_orders = map_option (map (\<lambda>a. the (value_of h a))) (purchase_orders page) \<rparr>"

text \<open>
  A well-formed argument: every entry of every page is an allocated object whose
  \<open>articles\<close>, if present, is an allocated array.
\<close>

definition entry_ok :: "'e store \<Rightarrow> addr \<Rightarrow> bool" where
  "entry_ok h a =
     (a < next_addr h \<and>
      (case objects h a of
         None \<Rightarrow> False
       | Some po \<Rightarrow>
           (case articles po of None \<Rightarrow> True | Some r \<Rightarrow> r < next_addr h \<and> arrays h r \<noteq> None)))"

definition pages_ok :: "'e store \<Rightarrow> addr PageExtractResponse list \<Rightarrow> bool" where
  "pages_ok h pages =
     list_all (\<lambda>page. case purchase_orders page of None \<Rightarrow> True | Some pos \<Rightarrow> list_all (entry_ok h) pos)
       pages"

text \<open>What a run leaves alone: everything allocated before it started.\<close>

definition unchanged_below :: "addr \<Rightarrow> 'e store \<Rightarrow> 'e store \<Rightarrow> bool" where
  "unchanged_below n h h' =
     (n \<le> next_addr h' \<and> (\<forall>a < n. objects h' a = objects h a \<and> arrays h' a = arrays h a))"

definition sim :: "addr \<Rightarrow> 'e store \<Rightarrow> store_merge_state \<Rightarrow> 'e merge_state \<Rightarrow> bool" where
  "sim n h st pst =
     (snd st = snd pst \<and> map (value_of h) (fst st) = map Some (fst pst) \<and> distinct (fst st) \<and>
      (\<forall>a \<in> set (fst st). n \<le> a \<and> entry_ok h a) \<and> n \<le> next_addr h)"

text \<open>The stores agree on everything allocated in the first, but for the object at \<open>x\<close>.\<close>

definition agree_except :: "addr \<Rightarrow> 'e store \<Rightarrow> 'e store \<Rightarrow> bool" where
  "agree_except x h h' =
     (next_addr h \<le> next_addr h' \<and>
      (\<forall>b < next_addr h. (b \<noteq> x \<longrightarrow> objects h' b = objects h b) \<and> arrays h' b = arrays h b))"

definition stable_inputs :: "addr \<Rightarrow> 'e store \<Rightarrow> 'e store \<Rightarrow> bool" where
  "stable_inputs n h h' =
     (\<forall>b. b < n \<longrightarrow> entry_ok h b \<longrightarrow> value_of h' b = value_of h b \<and> entry_ok h' b)"

definition page_entries_ok :: "addr \<Rightarrow> 'e store \<Rightarrow> addr PageExtractResponse list \<Rightarrow> bool" where
  "page_entries_ok n h pages =
     (\<forall>page \<in> set pages. \<forall>pos. purchase_orders page = Some pos \<longrightarrow>
        (\<forall>a \<in> set pos. a < n \<and> entry_ok h a))"

text \<open>The object at \<open>a\<close> has an article array that was allocated at \<open>n\<close> or later.\<close>

definition own_array :: "addr \<Rightarrow> 'e store \<Rightarrow> addr \<Rightarrow> bool" where
  "own_array n h a =
     (case objects h a of
        None \<Rightarrow> False
      | Some po \<Rightarrow> (case articles po of None \<Rightarrow> False | Some r \<Rightarrow> n \<le> r))"

text \<open>
  A store for the scenario of two pages that both carry \<open>PO1\<close>: arrays at 0 and 2,
  purchase-order objects at 1 and 3.
\<close>

definition example_store :: "ArticleExtract store" where
  "example_store =
     \<lparr> objects =
         [1 \<mapsto> empty_entry\<lparr>po_number := Some ''PO1'', supplier_name := Some ''Acme'',
                            articles := Some 0\<rparr>,
          3 \<mapsto> empty_entry\<lparr>po_number := Some ''PO1'', supplier_name := Some ''Other'',
                            articles := Some 2\<rparr>],
       arrays =
         [0 \<mapsto> [article_named ''Rice''],
          2 \<mapsto> [article_named ''Wheat'', article_named ''Salt'']],
       next_addr = 4 \<rparr>"

definition example_pages :: "addr PageExtractResponse list" where
  "example_pages = [one_page 1 [1], one_page 2 [3]]"

section \<open>Properties of \<open>mergePageResults\<close>\<close>



lemma poNum_merge_into [simp]: "poNum (merge_into existing po) = poNum existing"
  by (simp add: poNum_def merge_into_def fillFields_def)

lemma poNum_articles_update [simp]: "poNum (po\<lparr>articles := a\<rparr>) = poNum po"
  by (simp add: poNum_def)

lemma seen_consistent_empty: "seen_consistent ([], Map.empty)"
  by (simp add: seen_consistent_def)

lemma seen_consistent_update:
  assumes "seen_consistent (allPOs, seen)" "j < length allPOs" "poNum e = poNum (allPOs ! j)"
  shows "seen_consistent (allPOs[j := e], seen)"
  using assms unfolding seen_consistent_def
  by (auto simp: nth_list_update)

lemma seen_consistent_push_keyed:
  assumes "seen_consistent (allPOs, seen)" "seen k = None" "poNum e = Some k"
  shows "seen_consistent (allPOs @ [e], seen(k \<mapsto> length allPOs))"
proof -
  have fresh: "\<And>i. i < length allPOs \<Longrightarrow> poNum (allPOs ! i) \<noteq> Some k"
    using assms(1,2) unfolding seen_consistent_def by (metis fst_conv snd_conv option.distinct(1))
  show ?thesis
    using assms fresh unfolding seen_consistent_def
    by (auto simp: nth_append less_Suc_eq)
qed

lemma seen_consistent_push_orphan:
  assumes "seen_consistent (allPOs, seen)" "poNum e = None"
  shows "seen_consistent (allPOs @ [e], seen)"
  using assms unfolding seen_consistent_def
  by (auto simp: nth_append less_Suc_eq)

lemma merge_po_consistent:
  assumes "seen_consistent st" "merge_po st po = Inr st'"
  shows "seen_consistent st'"
proof -
  obtain allPOs seen where st: "st = (allPOs, seen)" by (cases st)
  show ?thesis
  proof (cases "poNum po")
    case None
    with assms st show ?thesis
      using seen_consistent_push_orphan [of allPOs seen "po\<lparr>articles := Some (articles_of po)\<rparr>"]
      by (auto simp: merge_po_def seen_consistent_update split: if_splits)
  next
    case (Some k)
    with assms st show ?thesis
      by (auto simp: merge_po_def in_seen_def seen_consistent_update seen_consistent_push_keyed
          split: if_splits option.splits)
  qed
qed




lemmas merge_eval =
  mergePageResults_def merge_po_def poNum_def trim_def is_white_space_def in_seen_def
  Object_prototype_keys_def articles_of_def merge_into_def fillFields_def fill_def
  truthy_str_def truthy_num_def empty_entry_def one_page_def











lemma articles_merge_into [simp]:
  "articles (merge_into existing po) = Some (articles_of existing @ articles_of po)"
  by (simp add: merge_into_def fillFields_def)

lemma articles_of_merge_into [simp]:
  "articles_of (merge_into existing po) = articles_of existing @ articles_of po"
  by (simp add: articles_of_def)

lemma merge_inv_empty: "merge_inv ([], Map.empty)"
  by (simp add: merge_inv_def seen_consistent_empty)

lemma merge_po_inv:
  assumes "merge_inv st" "merge_po st po = Inr st'"
  shows "merge_inv st'"
proof -
  obtain allPOs seen where st: "st = (allPOs, seen)" by (cases st)
  have cons: "seen_consistent st'"
    using assms merge_po_consistent unfolding merge_inv_def by blast
  have rest: "(\<forall>k \<in> set Object_prototype_keys. snd st' k = None) \<and>
      (\<forall>i < length (fst st').
         articles (fst st' ! i) \<noteq> None \<and>
         (poNum (fst st' ! i) = None \<longrightarrow> i = 0 \<and> articles_of (fst st' ! i) \<noteq> []))"
  proof (cases "poNum po")
    case None
    with assms st show ?thesis
      unfolding merge_inv_def
      by (auto simp: merge_po_def nth_list_update articles_of_def split: if_splits)
  next
    case (Some k)
    with assms st show ?thesis
      unfolding merge_inv_def
      by (auto simp: merge_po_def in_seen_def nth_list_update nth_append articles_of_def
          split: if_splits option.splits)
  qed
  from cons rest show ?thesis by (simp add: merge_inv_def)
qed

lemma merge_pos_inv:
  "merge_inv st \<Longrightarrow> merge_pos st pos = Inr st' \<Longrightarrow> merge_inv st'"
  by (induction pos arbitrary: st) (auto split: sum.splits dest: merge_po_inv)

lemma merge_pages_inv:
  "merge_inv st \<Longrightarrow> merge_pages st pages = Inr st' \<Longrightarrow> merge_inv st'"
  by (induction pages arbitrary: st)
     (auto split: sum.splits option.splits if_splits dest: merge_pos_inv)

lemma merge_pos_snoc:
  "merge_pos st (pos @ [po]) =
     (case merge_pos st pos of Inl e \<Rightarrow> Inl e | Inr st' \<Rightarrow> merge_po st' po)"
  by (induction pos arbitrary: st) (auto split: sum.splits)

lemma remerge_prefix:
  assumes inv: "merge_inv (xs, seen)" and n: "n \<le> length xs"
  shows "merge_pos ([], Map.empty) (take n xs) = Inr (take n xs, seen_below n seen)"
  using n
proof (induction n)
  case 0
  show ?case by (simp add: seen_below_def fun_eq_iff split: option.splits)
next
  case (Suc n)
  then have n: "n < length xs" by simp
  let ?b = "xs ! n"
  have IH: "merge_pos ([], Map.empty) (take n xs) = Inr (take n xs, seen_below n seen)"
    using Suc by simp
  have cons: "\<And>k i. seen k = Some i \<longleftrightarrow> i < length xs \<and> poNum (xs ! i) = Some k"
    using inv by (simp add: merge_inv_def seen_consistent_def)
  have art: "articles ?b \<noteq> None"
    using inv n by (simp add: merge_inv_def)
  then have same: "?b\<lparr>articles := Some (articles_of ?b)\<rparr> = ?b"
    by (cases "articles ?b") (simp_all add: articles_of_def)
  have step: "merge_po (take n xs, seen_below n seen) ?b
                = Inr (take n xs @ [?b], seen_below (Suc n) seen)"
  proof (cases "poNum ?b")
    case None
    then have n0: "n = 0" and ne: "articles_of ?b \<noteq> []"
      using inv n by (auto simp: merge_inv_def)
    have "seen_below (Suc 0) seen = seen_below 0 seen"
    proof
      fix k show "seen_below (Suc 0) seen k = seen_below 0 seen k"
        using cons [of k 0] None n0
        by (auto simp: seen_below_def split: option.splits)
    qed
    with None n0 ne same show ?thesis by (simp add: merge_po_def)
  next
    case (Some k)
    then have sk: "seen k = Some n" using cons n by simp
    then have notin: "\<not> in_seen (seen_below n seen) k"
      using inv by (auto simp: in_seen_def seen_below_def merge_inv_def)
    have "(seen_below n seen)(k \<mapsto> n) = seen_below (Suc n) seen"
    proof
      fix k' show "((seen_below n seen)(k \<mapsto> n)) k' = seen_below (Suc n) seen k'"
        using cons [of k' n] sk Some
        by (auto simp: seen_below_def less_Suc_eq split: option.splits)
    qed
    with Some notin same n show ?thesis by (simp add: merge_po_def)
  qed
  show ?case
    using n IH step by (simp add: take_Suc_conv_app_nth merge_pos_snoc)
qed

lemma seen_below_all:
  assumes "seen_consistent (xs, seen)"
  shows "seen_below (length xs) seen = seen"
proof
  fix k
  have "\<And>i. seen k = Some i \<Longrightarrow> i < length xs"
    using assms by (simp add: seen_consistent_def)
  then show "seen_below (length xs) seen k = seen k"
    by (cases "seen k") (simp_all add: seen_below_def)
qed

lemma remerge_entries:
  assumes "merge_inv (xs, seen)"
  shows "merge_pos ([], Map.empty) xs = Inr (xs, seen)"
  using remerge_prefix [OF assms, of "length xs"] seen_below_all [of xs seen] assms
  by (simp add: merge_inv_def)

lemma merge_pages_singletons:
  "map purchase_orders pages = map (\<lambda>po. Some [po]) xs \<Longrightarrow> merge_pages st pages = merge_pos st xs"
proof (induction xs arbitrary: st pages)
  case Nil
  then show ?case by simp
next
  case (Cons x xs)
  then obtain p ps where pages: "pages = p # ps" "purchase_orders p = Some [x]"
    "map purchase_orders ps = map (\<lambda>po. Some [po]) xs"
    by (cases pages) auto
  with Cons.IH show ?case by (simp split: sum.splits)
qed

lemma merge_po_returns:
  assumes "merge_inv st" "case poNum po of None \<Rightarrow> True | Some k \<Rightarrow> k \<notin> set Object_prototype_keys"
  shows "\<exists>st'. merge_po st po = Inr st'"
proof -
  obtain allPOs seen where st: "st = (allPOs, seen)" by (cases st)
  have "\<And>k i. seen k = Some i \<Longrightarrow> i < length allPOs"
    using assms(1) st by (simp add: merge_inv_def seen_consistent_def)
  with assms(2) st show ?thesis
    by (auto simp: merge_po_def in_seen_def split: option.splits)
qed

lemma merge_pos_returns:
  "merge_inv st \<Longrightarrow>
   list_all (\<lambda>po. case poNum po of None \<Rightarrow> True | Some k \<Rightarrow> k \<notin> set Object_prototype_keys) pos \<Longrightarrow>
   \<exists>st'. merge_pos st pos = Inr st'"
proof (induction pos arbitrary: st)
  case Nil
  then show ?case by simp
next
  case (Cons po pos)
  then obtain st1 where s1: "merge_po st po = Inr st1"
    using merge_po_returns [of st po] by auto
  then have "merge_inv st1" using Cons.prems(1) merge_po_inv by blast
  with Cons s1 show ?case by simp
qed

lemma merge_pages_returns:
  "merge_inv st \<Longrightarrow> no_inherited_key pages \<Longrightarrow> \<exists>st'. merge_pages st pages = Inr st'"
proof (induction pages arbitrary: st)
  case Nil
  then show ?case by simp
next
  case (Cons page pages)
  show ?case
  proof (cases "purchase_orders page")
    case None
    with Cons show ?thesis by (simp add: no_inherited_key_def)
  next
    case (Some pos)
    with Cons.prems obtain st1 where s1: "merge_pos st pos = Inr st1"
      using merge_pos_returns [of st pos] by (auto simp: no_inherited_key_def)
    then have "merge_inv st1" using Cons.prems(1) merge_pos_inv by blast
    with Cons Some s1 show ?thesis by (simp add: no_inherited_key_def)
  qed
qed

text \<open>
  C6. Merging is idempotent: when \<open>mergePageResults\<close> returns \<open>out\<close>, merging the pages
  that carry the records of \<open>out\<close> one per page returns \<open>out\<close> again, record for record
  (same numbers, same fields, same articles in the same order). It returns for every
  input in which no entry's key is a property name inherited from \<open>Object.prototype\<close>.
\<close>

theorem C6_merge_idempotent:
  "(mergePageResults pages = Inr out \<and> map purchase_orders pages' = map (\<lambda>po. Some [po]) out
      \<longrightarrow> mergePageResults pages' = Inr out)
   \<and> (no_inherited_key pages \<longrightarrow> (\<exists>out. mergePageResults pages = Inr out))"
proof (intro conjI impI)
  assume h: "mergePageResults pages = Inr out \<and> map purchase_orders pages' = map (\<lambda>po. Some [po]) out"
  then obtain seen where run: "merge_pages ([], Map.empty) pages = Inr (out, seen)"
    by (auto simp: mergePageResults_def split: sum.splits)
  then have "merge_inv (out, seen)"
    using merge_pages_inv [OF merge_inv_empty] by blast
  then have "merge_pos ([], Map.empty) out = Inr (out, seen)"
    by (rule remerge_entries)
  with h show "mergePageResults pages' = Inr out"
    by (simp add: mergePageResults_def merge_pages_singletons)
next
  assume "no_inherited_key pages"
  then obtain st' where "merge_pages ([], Map.empty) pages = Inr st'"
    using merge_pages_returns [OF merge_inv_empty] by blast
  then show "\<exists>out. mergePageResults pages = Inr out"
    by (simp add: mergePageResults_def)
qed

theorem C6_merge_idempotent_witness:
  "mergePageResults
     [one_page 1 [empty_entry\<lparr>po_number := Some ''PO1'', articles := Some [article_named ''Rice'']\<rparr>],
      one_page 2 [empty_entry\<lparr>supplier_name := Some ''Acme'', articles := Some [article_named ''Wheat'']\<rparr>],
      one_page 3 [empty_entry\<lparr>po_number := Some ''PO2'', articles := Some [article_named ''Salt'']\<rparr>]]
   = Inr [empty_entry\<lparr>po_number := Some ''PO1'', supplier_name := Some ''Acme'',
                       articles := Some [article_named ''Rice'', article_named ''Wheat'']\<rparr>,
          empty_entry\<lparr>po_number := Some ''PO2'', articles := Some [article_named ''Salt'']\<rparr>]
   \<and> mergePageResults
        [one_page 1 [empty_entry\<lparr>po_number := Some ''PO1'', supplier_name := Some ''Acme'',
                       articles := Some [article_named ''Rice'', article_named ''Wheat'']\<rparr>],
         one_page 2 [empty_entry\<lparr>po_number := Some ''PO2'', articles := Some [article_named ''Salt'']\<rparr>]]
     = Inr [empty_entry\<lparr>po_number := Some ''PO1'', supplier_name := Some ''Acme'',
                       articles := Some [article_named ''Rice'', article_named ''Wheat'']\<rparr>,
            empty_entry\<lparr>po_number := Some ''PO2'', articles := Some [article_named ''Salt'']\<rparr>]"
proof -
  let ?pages = "[one_page 1 [empty_entry\<lparr>po_number := Some ''PO1'', articles := Some [article_named ''Rice'']\<rparr>],
      one_page 2 [empty_entry\<lparr>supplier_name := Some ''Acme'', articles := Some [article_named ''Wheat'']\<rparr>],
      one_page 3 [empty_entry\<lparr>po_number := Some ''PO2'', articles := Some [article_named ''Salt'']\<rparr>]]"
  let ?out = "[empty_entry\<lparr>po_number := Some ''PO1'', supplier_name := Some ''Acme'',
                       articles := Some [article_named ''Rice'', article_named ''Wheat'']\<rparr>,
          empty_entry\<lparr>po_number := Some ''PO2'', articles := Some [article_named ''Salt'']\<rparr>]"
  let ?pages' = "[one_page 1 [?out ! 0], one_page 2 [?out ! 1]]"
  have first: "mergePageResults ?pages = Inr ?out"
    by (simp add: merge_eval)
  have wrapped: "map purchase_orders ?pages' = map (\<lambda>po. Some [po]) ?out"
    by (simp add: one_page_def)
  have "mergePageResults ?pages' = Inr ?out"
    using C6_merge_idempotent [where pages = ?pages and out = ?out and pages' = ?pages', THEN conjunct1]
      first wrapped by blast
  with first show ?thesis by simp
qed

section \<open>Properties of the transfer-in page\<close>

lemma run_reachable: "reachable s \<Longrightarrow> run String es s = Some s' \<Longrightarrow> reachable s'"
  by (induction es arbitrary: s) (auto split: if_splits intro: reachable.step)

lemma foldl_mark:
  "foldl (\<lambda>m b. m(f b \<mapsto> v)) m0 bs k = (if k \<in> f ` set bs then Some v else m0 k)"
  by (induction bs arbitrary: m0) auto

lemma foldl_mark_unless:
  "foldl (\<lambda>m i. if P i then m(i \<mapsto> v) else m) m0 js k =
     (if k \<in> set js \<and> P k then Some v else m0 k)"
  by (induction js arbitrary: m0) auto

lemma foldl_mark_index:
  "foldl (\<lambda>m i. m(i \<mapsto> v)) m0 js k = (if k \<in> set js then Some v else m0 k)"
  using foldl_mark [of "\<lambda>i. i" v m0 js k] by simp

lemma count_split:
  "length (filter P xs) + length (filter Q xs) + length (filter (\<lambda>x. \<not> P x \<and> \<not> Q x) xs)
     = length xs + length (filter (\<lambda>x. P x \<and> Q x) xs)"
  by (induction xs) auto

lemma totalMatched_count:
  "totalMatched s + unmarked_count s = totalItems s + doubly_marked s"
proof -
  have b: "matchedBoxes s + length (filter (\<lambda>b. \<not> box_matched s b) (boxes s)) = totalBoxes s"
    unfolding matchedBoxes_def totalBoxes_def by (rule sum_length_filter_compl)
  have l: "matchedLines s + issuedLines s +
           length (filter (\<lambda>i. \<not> line_matched s i \<and> \<not> line_issued s i) [0 ..< totalLines s])
         = totalLines s + doubly_marked s"
    unfolding matchedLines_def issuedLines_def doubly_marked_def
    using count_split [of "line_matched s" "[0 ..< totalLines s]" "line_issued s"] by simp
  from b l show ?thesis
    by (simp add: totalMatched_def resolvedLines_def unmarked_count_def totalItems_def)
qed

lemma doubly_marked_pos_iff:
  "doubly_marked s > 0 \<longleftrightarrow> (\<exists>i < totalLines s. line_matched s i \<and> line_issued s i)"
proof -
  have "doubly_marked s > 0 \<longleftrightarrow>
          filter (\<lambda>i. line_matched s i \<and> line_issued s i) [0 ..< totalLines s] \<noteq> []"
    by (simp add: doubly_marked_def)
  also have "\<dots> \<longleftrightarrow> (\<exists>i < totalLines s. line_matched s i \<and> line_issued s i)"
    unfolding filter_empty_conv by (simp add: Bex_def)
  finally show ?thesis .
qed

lemma unmarked_count_zero_iff:
  "unmarked_count s = 0 \<longleftrightarrow>
     (\<forall>b \<in> set (boxes s). box_matched s b) \<and> (\<forall>i < totalLines s. line_matched s i \<or> line_issued s i)"
  by (auto simp: unmarked_count_def filter_empty_conv)

lemmas derived_defs =
  boxes_def lines_def totalLines_def totalBoxes_def box_matched_def line_matched_def
  line_issued_def truthy_flag_def

lemma inv_initial: "no_pending_behind_double initial_state"
  by (simp add: no_pending_behind_double_def initial_state_def derived_defs)

lemma inv_load_start: "no_pending_behind_double s \<Longrightarrow> no_pending_behind_double (load_start s n)"
  by (simp add: no_pending_behind_double_def load_start_def derived_defs)

lemma inv_load_success: "no_pending_behind_double (load_success s r)"
  by (simp add: no_pending_behind_double_def load_success_def derived_defs foldl_mark_index)

lemma inv_load_failure: "no_pending_behind_double (load_failure s)"
  by (simp add: no_pending_behind_double_def load_failure_def derived_defs)

lemma inv_ack_box:
  "no_pending_behind_double s \<Longrightarrow> no_pending_behind_double (handleAcknowledgeBox s boxId)"
  by (simp add: no_pending_behind_double_def handleAcknowledgeBox_def derived_defs)

lemma inv_ack_article_boxes:
  "no_pending_behind_double s \<Longrightarrow> no_pending_behind_double (handleAcknowledgeArticleBoxes s a)"
  by (simp add: no_pending_behind_double_def handleAcknowledgeArticleBoxes_def groupedBoxes_def
      derived_defs foldl_mark)

lemma inv_ack_line:
  assumes "no_pending_behind_double s" "\<not> line_issued s i"
  shows "no_pending_behind_double (handleAcknowledgeLine s i)"
  using assms unfolding no_pending_behind_double_def handleAcknowledgeLine_def derived_defs
  by simp metis

lemma inv_open_issue:
  "no_pending_behind_double s \<Longrightarrow>
   no_pending_behind_double (case handleOpenIssue String s i of Inl e \<Rightarrow> s | Inr s' \<Rightarrow> s')"
  by (simp add: no_pending_behind_double_def handleOpenIssue_def derived_defs Let_def)

lemma inv_submit_issue:
  assumes "no_pending_behind_double s"
  shows "no_pending_behind_double (fst (handleSubmitIssue s i))"
  using assms unfolding no_pending_behind_double_def handleSubmitIssue_def derived_defs Let_def
  by simp metis

lemma inv_cancel:
  "no_pending_behind_double s \<Longrightarrow> no_pending_behind_double (handleCancelIssue s)"
  by (simp add: no_pending_behind_double_def handleCancelIssue_def derived_defs)

lemma inv_ack_all: "no_pending_behind_double (handleAcknowledgeAll s)"
  by (simp add: no_pending_behind_double_def handleAcknowledgeAll_def derived_defs foldl_mark
      foldl_mark_index)

lemma inv_ack_all_lines:
  assumes "no_pending_behind_double s"
  shows "no_pending_behind_double (handleAcknowledgeAllLines s)"
  using assms unfolding no_pending_behind_double_def handleAcknowledgeAllLines_def derived_defs
  by (simp add: foldl_mark_unless) metis

lemma inv_ack_all_boxes:
  "no_pending_behind_double s \<Longrightarrow> no_pending_behind_double (handleAcknowledgeAllBoxes s)"
  by (simp add: no_pending_behind_double_def handleAcknowledgeAllBoxes_def derived_defs foldl_mark)

lemma inv_fields:
  "no_pending_behind_double s \<Longrightarrow> no_pending_behind_double (s\<lparr>issueForm := f\<rparr>)"
  "no_pending_behind_double s \<Longrightarrow> no_pending_behind_double (s\<lparr>boxCondition := c\<rparr>)"
  "no_pending_behind_double s \<Longrightarrow> no_pending_behind_double (s\<lparr>conditionRemarks := c\<rparr>)"
  "no_pending_behind_double s \<Longrightarrow> no_pending_behind_double (s\<lparr>loading := l\<rparr>)"
  by (simp_all add: no_pending_behind_double_def derived_defs)

lemma inv_fire:
  assumes "no_pending_behind_double s" "offered e s"
  shows "no_pending_behind_double (fire String e s)"
  using assms
  by (cases e)
     (simp_all add: inv_load_start inv_load_success inv_load_failure inv_ack_box
        inv_ack_article_boxes inv_ack_line inv_open_issue inv_submit_issue inv_cancel
        inv_ack_all inv_ack_all_lines inv_ack_all_boxes inv_fields)

lemma reachable_inv: "reachable s \<Longrightarrow> no_pending_behind_double s"
  by (induction rule: reachable.induct) (simp_all add: inv_initial inv_fire)

lemma upt_0_2: "[0 ..< 2] = [0, Suc 0]"
  by (simp add: upt_rec)

lemmas page_eval =
  derived_defs totalItems_def matchedBoxes_def matchedLines_def issuedLines_def
  resolvedLines_def totalMatched_def allMatched_def confirm_disabled_def confirm_enabled_def
  issue_form_shown_def load_start_def load_success_def handleAcknowledgeAll_def
  handleAcknowledgeAllLines_def handleSubmitIssue_def handleOpenIssue_def
  with_issue_form_def transfer_of_def plain_line_def plain_box_def initial_state_def
  blank_form_def trim_def is_white_space_def isNaN_def unmarked_count_def doubly_marked_def
  Let_def truthy_num_def truthy_str_def

lemmas parse_eval =
  parseFloat_def parse_unsigned_def isPrefixOf_def is_digit_def digits_value_def
  digit_value_def exponent_part_def scale10_def is_white_space_def

lemma parse_5: "parseFloat ''5'' = Num 5"
  by (simp add: parse_eval)

lemma parse_blank: "parseFloat [] = NaN"
  by (simp add: parseFloat_def)

lemma reachable_two_lines_loaded: "reachable two_lines_loaded"
proof -
  have "reachable (load_start initial_state ''T1'')"
    using reachable.step [OF reachable.initial, of "LoadStart ''T1''"] by simp
  then show ?thesis
    using reachable.step [of _ "LoadSuccess (transfer_of [] [plain_line ''Sugar'', plain_line ''Salt''])"]
    by (simp add: two_lines_loaded_def)
qed

lemma run_step:
  "offered e s \<Longrightarrow> fire String e s = s' \<Longrightarrow> run String es s' = r \<Longrightarrow> run String (e # es) s = r"
  by simp

lemma run_append:
  "run String es s = Some s' \<Longrightarrow> run String (es @ es') s = run String es' s'"
  by (induction es arbitrary: s) (auto split: if_splits)

lemma run_first_line_issued:
  "run String
     [LoadStart ''T1'',
      LoadSuccess (transfer_of [] [plain_line ''Sugar'', plain_line ''Salt'']),
      OpenIssue 0,
      EditIssueForm \<lparr> form_actual_qty = ''5'', form_actual_total_weight = [], form_remarks = [] \<rparr>,
      SubmitIssue 0]
     initial_state
   = Some first_line_issued"
proof -
  let ?f = "\<lparr> form_actual_qty = ''5'', form_actual_total_weight = [], form_remarks = [] \<rparr>"
  let ?t = "transfer_of [] [plain_line ''Sugar'', plain_line ''Salt'']"
  have load: "fire String (LoadSuccess ?t) (fire String (LoadStart ''T1'') initial_state) = two_lines_loaded"
    by (simp add: two_lines_loaded_def)
  have o: "offered (OpenIssue 0) two_lines_loaded"
    by (simp add: two_lines_loaded_def page_eval foldl_mark_index)
  have shown: "offered (EditIssueForm ?f) (fire String (OpenIssue 0) two_lines_loaded)"
    by (simp add: two_lines_loaded_def page_eval)
  have eq: "fire String (EditIssueForm ?f) (fire String (OpenIssue 0) two_lines_loaded)
              = with_issue_form two_lines_loaded 0 ?f"
    by (simp add: two_lines_loaded_def page_eval)
  have sub: "offered (SubmitIssue 0) (with_issue_form two_lines_loaded 0 ?f)"
    by (simp add: two_lines_loaded_def page_eval)
  have last: "fire String (SubmitIssue 0) (with_issue_form two_lines_loaded 0 ?f) = first_line_issued"
    by (simp add: first_line_issued_def)
  show ?thesis
    by (rule run_step [OF _ refl], simp)
       (rule run_step [OF _ load], simp,
        rule run_step [OF o refl], rule run_step [OF shown eq], rule run_step [OF sub last], simp)
qed

lemma reachable_first_line_issued: "reachable first_line_issued"
  using run_reachable [OF reachable.initial run_first_line_issued] .

lemma items_need_transfer: "totalItems s > 0 \<Longrightarrow> transferData s \<noteq> None"
  by (cases "transferData s") (simp_all add: totalItems_def totalBoxes_def totalLines_def boxes_def lines_def)

lemma gate_when_pending:
  assumes "reachable s" "unmarked_count s > 0"
  shows "\<not> allMatched s"
proof -
  have "no_pending_behind_double s" using assms(1) by (rule reachable_inv)
  then have "doubly_marked s > 0 \<longrightarrow> unmarked_count s = 0"
    unfolding doubly_marked_pos_iff unmarked_count_zero_iff no_pending_behind_double_def .
  with assms(2) have "doubly_marked s = 0" by auto
  with totalMatched_count [of s] assms(2) show ?thesis
    by (simp add: allMatched_def)
qed

lemma gate_without_double:
  assumes "doubly_marked s = 0"
  shows "confirm_enabled s \<longleftrightarrow> \<not> loading s \<and> unmarked_count s = 0 \<and> totalItems s > 0"
proof -
  have "allMatched s \<longleftrightarrow> totalItems s > 0 \<and> unmarked_count s = 0"
    using totalMatched_count [of s] assms by (auto simp: allMatched_def)
  then show ?thesis
    using items_need_transfer [of s] by (auto simp: confirm_enabled_def confirm_disabled_def)
qed

text \<open>
  Every state the page can reach has its Pending items, and the maps stand to them as
  \<open>pending_agrees\<close> says. Where no Pending line has an entry in \<open>linesIssueMap\<close>, the
  Pending items are the items that no map marks.
\<close>

lemma tracked_reachable: "tracked s P \<Longrightarrow> reachable s"
  by (induction rule: tracked.induct) (auto intro: reachable.intros)

lemma reachable_tracked: "reachable s \<Longrightarrow> \<exists>P. tracked s P"
  by (induction rule: reachable.induct) (auto intro: tracked.intros)

lemma agrees_fire:
  assumes "pending_agrees s P" "offered e s"
  shows "pending_agrees (fire String e s) (pending_after e s P)"
proof (cases e)
  case (LoadStart n)
  with assms show ?thesis by (simp add: pending_agrees_def load_start_def derived_defs)
next
  case (LoadSuccess r)
  show ?thesis unfolding LoadSuccess
    by (auto simp add: pending_agrees_def load_success_def derived_defs foldl_mark_index foldl_mark split: option.splits)
next
  case LoadFailure
  show ?thesis unfolding LoadFailure
    by (simp add: pending_agrees_def load_failure_def derived_defs)
next
  case (AcknowledgeBox b)
  with assms show ?thesis
    by (auto simp add: pending_agrees_def handleAcknowledgeBox_def derived_defs)
next
  case (AcknowledgeArticleBoxes a)
  with assms show ?thesis
    by (auto simp add: pending_agrees_def handleAcknowledgeArticleBoxes_def groupedBoxes_def derived_defs foldl_mark)
next
  case (AcknowledgeLine i)
  with assms show ?thesis
    by (auto simp add: pending_agrees_def handleAcknowledgeLine_def derived_defs)
next
  case (OpenIssue i)
  with assms show ?thesis
    by (simp add: pending_agrees_def handleOpenIssue_def derived_defs Let_def)
next
  case (EditIssueForm f)
  with assms show ?thesis by (simp add: pending_agrees_def derived_defs)
next
  case (SubmitIssue i)
  with assms show ?thesis
    by (auto simp add: pending_agrees_def issue_reported_def handleSubmitIssue_def derived_defs Let_def)
next
  case CancelIssue
  with assms show ?thesis by (simp add: pending_agrees_def handleCancelIssue_def derived_defs)
next
  case AcknowledgeAll
  show ?thesis unfolding AcknowledgeAll
    by (simp add: pending_agrees_def none_pending_def handleAcknowledgeAll_def derived_defs foldl_mark foldl_mark_index)
next
  case AcknowledgeAllLines
  with assms show ?thesis
    by (auto simp add: pending_agrees_def handleAcknowledgeAllLines_def derived_defs foldl_mark_unless)
next
  case AcknowledgeAllBoxes
  with assms show ?thesis
    by (auto simp add: pending_agrees_def handleAcknowledgeAllBoxes_def derived_defs foldl_mark)
next
  case (SetBoxCondition c)
  with assms show ?thesis by (simp add: pending_agrees_def derived_defs)
next
  case (SetConditionRemarks c)
  with assms show ?thesis by (simp add: pending_agrees_def derived_defs)
next
  case ConfirmStart
  with assms show ?thesis by (simp add: pending_agrees_def derived_defs)
next
  case ConfirmFinish
  with assms show ?thesis by (simp add: pending_agrees_def derived_defs)
qed

lemma tracked_agrees: "tracked s P \<Longrightarrow> pending_agrees s P"
proof (induction rule: tracked.induct)
  case initial
  show ?case by (simp add: pending_agrees_def none_pending_def initial_state_def derived_defs)
next
  case (step s P e String)
  then show ?case by (simp add: agrees_fire)
qed

lemma count_Pending_unmarked:
  assumes "pending_agrees s P" "leftover_issues s P = 0"
  shows "count_Pending s P = unmarked_count s"
proof -
  from assms(2) have no: "\<forall>i < totalLines s. i \<in> pending_lines P \<longrightarrow> \<not> line_issued s i"
    by (auto simp: leftover_issues_def filter_empty_conv)
  have b: "filter (\<lambda>b. b_id b \<in> pending_boxes P) (boxes s) = filter (\<lambda>b. \<not> box_matched s b) (boxes s)"
    using assms(1) by (intro filter_cong refl) (simp add: pending_agrees_def)
  have l: "filter (\<lambda>i. i \<in> pending_lines P) [0 ..< totalLines s]
         = filter (\<lambda>i. \<not> line_matched s i \<and> \<not> line_issued s i) [0 ..< totalLines s]"
    using assms(1) no by (intro filter_cong refl) (auto simp: pending_agrees_def)
  show ?thesis by (simp add: count_Pending_def unmarked_count_def b l)
qed

text \<open>
  C1, as amended. Take a state the page can reach, with the items that are Pending in it
  (loaded and not acted on since), in which no Pending line has an entry in
  \<open>linesIssueMap\<close> left from an earlier transfer. The confirm button is disabled whenever
  an item is Pending. If moreover no line is marked both acknowledged and issued, the
  button is enabled exactly when the \<open>loading\<close> flag is down, no item is Pending and
  there is at least one item. (The flag is raised when a lookup or a confirm request
  starts and lowered when any of them ends.)
\<close>

theorem C1_confirm_gate:
  "tracked s P \<longrightarrow> leftover_issues s P = 0 \<longrightarrow>
     (count_Pending s P > 0 \<longrightarrow> confirm_disabled s \<and> \<not> confirm_enabled s) \<and>
     (doubly_marked s = 0 \<longrightarrow>
        (confirm_enabled s \<longleftrightarrow> \<not> loading s \<and> count_Pending s P = 0 \<and> totalItems s > 0))"
proof (intro impI)
  assume t: "tracked s P" and l: "leftover_issues s P = 0"
  have eq: "count_Pending s P = unmarked_count s"
    using tracked_agrees [OF t] l by (rule count_Pending_unmarked)
  have r: "reachable s" using t by (rule tracked_reachable)
  show "(count_Pending s P > 0 \<longrightarrow> confirm_disabled s \<and> \<not> confirm_enabled s) \<and>
     (doubly_marked s = 0 \<longrightarrow>
        (confirm_enabled s \<longleftrightarrow> \<not> loading s \<and> count_Pending s P = 0 \<and> totalItems s > 0))"
    unfolding eq
    using gate_when_pending [OF r] gate_without_double [of s]
    by (auto simp: confirm_enabled_def confirm_disabled_def)
qed

lemma tracked_next:
  "tracked s P \<Longrightarrow> offered e s \<Longrightarrow> fire String e s = s' \<Longrightarrow> pending_after e s P = P' \<Longrightarrow> tracked s' P'"
  using tracked.step by blast

lemma lines_0_2: "{0 ..< Suc (Suc 0)} = {0, Suc 0}"
  by auto

lemma tracked_two_lines_loaded:
  "tracked two_lines_loaded \<lparr>pending_boxes = {}, pending_lines = {0, 1}\<rparr>"
proof -
  have a: "tracked (load_start initial_state ''T1'') none_pending"
    by (rule tracked_next [OF tracked.initial, where e = "LoadStart ''T1''"]) simp_all
  show ?thesis
    by (rule tracked_next [OF a,
          where e = "LoadSuccess (transfer_of [] [plain_line ''Sugar'', plain_line ''Salt''])"])
       (simp_all add: two_lines_loaded_def transfer_of_def lines_0_2)
qed

lemma tracked_first_line_issued:
  "tracked first_line_issued \<lparr>pending_boxes = {}, pending_lines = {1}\<rparr>"
proof -
  let ?f = "\<lparr> form_actual_qty = ''5'', form_actual_total_weight = [], form_remarks = [] \<rparr>"
  let ?P = "\<lparr>pending_boxes = {}, pending_lines = {0, 1}\<rparr>"
  have a: "tracked (fire String (OpenIssue 0) two_lines_loaded) ?P" for String
    by (rule tracked_next [OF tracked_two_lines_loaded, where e = "OpenIssue 0"])
       (simp_all add: two_lines_loaded_def page_eval foldl_mark_index)
  have b: "tracked (with_issue_form two_lines_loaded 0 ?f) ?P"
    by (rule tracked_next [OF a, where e = "EditIssueForm ?f"])
       (simp_all add: two_lines_loaded_def page_eval)
  show ?thesis
    by (rule tracked_next [OF b, where e = "SubmitIssue 0"])
       (simp_all add: first_line_issued_def issue_reported_def two_lines_loaded_def page_eval
          parse_5 parse_blank insert_Diff_if)
qed

lemma tracked_all_acknowledged: "tracked (handleAcknowledgeAll two_lines_loaded) none_pending"
  by (rule tracked_next [OF tracked_two_lines_loaded, where e = AcknowledgeAll])
     (simp_all add: two_lines_loaded_def page_eval foldl_mark_index upt_0_2)

lemma tracked_confirming: "tracked confirming none_pending"
  by (rule tracked_next [OF tracked_all_acknowledged, where e = ConfirmStart])
     (simp_all add: confirming_def two_lines_loaded_def page_eval foldl_mark_index upt_0_2)

lemma tracked_issued_then_acknowledged_all: "tracked issued_then_acknowledged_all none_pending"
  by (rule tracked_next [OF tracked_first_line_issued, where e = AcknowledgeAll])
     (simp_all add: issued_then_acknowledged_all_def first_line_issued_def two_lines_loaded_def
        page_eval foldl_mark_index upt_0_2 parse_5 parse_blank)

lemma tracked_second_transfer_loaded:
  "tracked second_transfer_loaded \<lparr>pending_boxes = {}, pending_lines = {0}\<rparr>"
proof -
  have a: "tracked (load_start first_line_issued ''T2'') \<lparr>pending_boxes = {}, pending_lines = {1}\<rparr>"
    by (rule tracked_next [OF tracked_first_line_issued, where e = "LoadStart ''T2''"]) simp_all
  show ?thesis
    by (rule tracked_next [OF a, where e = "LoadSuccess second_transfer"])
       (simp_all add: second_transfer_loaded_def second_transfer_def transfer_of_def)
qed

text \<open>
  With two lines loaded, both Pending, the button is disabled; with an issue reported on
  the first and the second Pending, it is disabled; after \<open>Acknowledge All\<close> on the two
  loaded lines it is enabled.
\<close>

theorem C1_confirm_gate_witness:
  "confirm_enabled (handleAcknowledgeAll two_lines_loaded) \<and>
   count_Pending two_lines_loaded \<lparr>pending_boxes = {}, pending_lines = {0, 1}\<rparr> = 2 \<and>
   confirm_disabled two_lines_loaded \<and>
   count_Pending first_line_issued \<lparr>pending_boxes = {}, pending_lines = {1}\<rparr> = 1 \<and>
   confirm_disabled first_line_issued"
proof -
  let ?s = "handleAcknowledgeAll two_lines_loaded"
  let ?P2 = "\<lparr>pending_boxes = {}, pending_lines = {0, 1}\<rparr>"
  let ?P1 = "\<lparr>pending_boxes = {}, pending_lines = {1}\<rparr>"
  have facts: "leftover_issues ?s none_pending = 0" "doubly_marked ?s = 0" "\<not> loading ?s"
    "count_Pending ?s none_pending = 0" "totalItems ?s > 0"
    by (simp_all add: two_lines_loaded_def page_eval foldl_mark_index upt_0_2
        leftover_issues_def count_Pending_def none_pending_def)
  have enabled: "confirm_enabled ?s"
    using C1_confirm_gate [of ?s none_pending] tracked_all_acknowledged facts by blast
  have two: "leftover_issues two_lines_loaded ?P2 = 0" "count_Pending two_lines_loaded ?P2 = 2"
    by (simp_all add: two_lines_loaded_def page_eval foldl_mark_index upt_0_2
        leftover_issues_def count_Pending_def)
  have d2: "confirm_disabled two_lines_loaded"
    using C1_confirm_gate [of two_lines_loaded ?P2] tracked_two_lines_loaded two by simp
  have one: "leftover_issues first_line_issued ?P1 = 0" "count_Pending first_line_issued ?P1 = 1"
    by (simp_all add: first_line_issued_def two_lines_loaded_def page_eval foldl_mark_index upt_0_2
        leftover_issues_def count_Pending_def parse_5 parse_blank)
  have d1: "confirm_disabled first_line_issued"
    using C1_confirm_gate [of first_line_issued ?P1] tracked_first_line_issued one by simp
  from enabled two d2 one d1 show ?thesis by simp
qed

lemma run_issued_then_acknowledged_all:
  "run String
     [LoadStart ''T1'',
      LoadSuccess (transfer_of [] [plain_line ''Sugar'', plain_line ''Salt'']),
      OpenIssue 0,
      EditIssueForm \<lparr> form_actual_qty = ''5'', form_actual_total_weight = [], form_remarks = [] \<rparr>,
      SubmitIssue 0,
      AcknowledgeAll]
     initial_state
   = Some issued_then_acknowledged_all"
proof -
  have "offered AcknowledgeAll first_line_issued"
    by (simp add: first_line_issued_def two_lines_loaded_def page_eval foldl_mark_index
        upt_0_2 parse_5 parse_blank)
  then have last: "run String [AcknowledgeAll] first_line_issued = Some issued_then_acknowledged_all"
    by (simp add: issued_then_acknowledged_all_def)
  from run_append [OF run_first_line_issued, where es' = "[AcknowledgeAll]"] last show ?thesis by simp
qed

lemma reachable_issued_then_acknowledged_all: "reachable issued_then_acknowledged_all"
  using run_reachable [OF reachable.initial run_issued_then_acknowledged_all] .

text \<open>
  Three states the page reaches in which the claim as it was written fails. No item is
  Pending and there are two items, yet the button is disabled: while the confirm
  request is in flight (\<open>loading\<close>), and after an issue on the first line followed by
  \<open>Acknowledge All\<close>, which counts that line twice. The one line of a transfer loaded
  after an issue was reported on the first line of an earlier one is Pending, yet the
  button is enabled: the entry left in \<open>linesIssueMap\<close> counts the line as issued.
\<close>

theorem C1_gate_counterexample:
  "tracked confirming none_pending \<and> count_Pending confirming none_pending = 0 \<and>
   totalItems confirming = 2 \<and> \<not> confirm_enabled confirming \<and>
   tracked issued_then_acknowledged_all none_pending \<and> \<not> loading issued_then_acknowledged_all \<and>
   count_Pending issued_then_acknowledged_all none_pending = 0 \<and>
   totalItems issued_then_acknowledged_all = 2 \<and> \<not> confirm_enabled issued_then_acknowledged_all \<and>
   tracked second_transfer_loaded \<lparr>pending_boxes = {}, pending_lines = {0}\<rparr> \<and>
   count_Pending second_transfer_loaded \<lparr>pending_boxes = {}, pending_lines = {0}\<rparr> = 1 \<and>
   confirm_enabled second_transfer_loaded \<and> \<not> confirm_disabled second_transfer_loaded"
proof -
  have a: "count_Pending confirming none_pending = 0 \<and> totalItems confirming = 2 \<and>
           \<not> confirm_enabled confirming"
    by (simp add: confirming_def two_lines_loaded_def page_eval foldl_mark_index upt_0_2
        count_Pending_def none_pending_def)
  have b: "\<not> loading issued_then_acknowledged_all \<and>
     count_Pending issued_then_acknowledged_all none_pending = 0 \<and>
     totalItems issued_then_acknowledged_all = 2 \<and>
     \<not> confirm_enabled issued_then_acknowledged_all"
    by (simp add: issued_then_acknowledged_all_def first_line_issued_def two_lines_loaded_def
        page_eval foldl_mark_index upt_0_2 parse_5 parse_blank count_Pending_def none_pending_def)
  have c: "count_Pending second_transfer_loaded \<lparr>pending_boxes = {}, pending_lines = {0}\<rparr> = 1 \<and>
     confirm_enabled second_transfer_loaded \<and> \<not> confirm_disabled second_transfer_loaded"
    by (simp add: second_transfer_loaded_def second_transfer_def first_line_issued_def
        two_lines_loaded_def page_eval foldl_mark_index upt_0_2 parse_5 parse_blank
        count_Pending_def)
  from a b c tracked_confirming tracked_issued_then_acknowledged_all
    tracked_second_transfer_loaded show ?thesis by simp
qed

lemma second_transfer_loaded_leftover:
  "leftover_issues second_transfer_loaded \<lparr>pending_boxes = {}, pending_lines = {0}\<rparr> = 1"
  by (simp add: second_transfer_loaded_def second_transfer_def first_line_issued_def
      two_lines_loaded_def page_eval parse_5 parse_blank leftover_issues_def)

text \<open>
  C2 fails on the code. Two lines are loaded, an issue with quantity 5 is reported on the
  first, and \<open>Acknowledge All\<close> is pressed: the first line is then acknowledged and still
  carries the issue.
\<close>

theorem C2_acknowledge_all_keeps_issue_data:
  "run String
     [LoadStart ''T1'',
      LoadSuccess (transfer_of [] [plain_line ''Sugar'', plain_line ''Salt'']),
      OpenIssue 0,
      EditIssueForm \<lparr> form_actual_qty = ''5'', form_actual_total_weight = [], form_remarks = [] \<rparr>,
      SubmitIssue 0,
      AcknowledgeAll]
     initial_state
   = Some issued_then_acknowledged_all \<and>
   reachable issued_then_acknowledged_all \<and>
   line_matched issued_then_acknowledged_all 0 \<and>
   linesIssueMap issued_then_acknowledged_all 0 =
     Some \<lparr> actual_qty = Num 5, actual_total_weight = Num 0, remarks = [] \<rparr>"
proof -
  have "line_matched issued_then_acknowledged_all 0 \<and>
   linesIssueMap issued_then_acknowledged_all 0 =
     Some \<lparr> actual_qty = Num 5, actual_total_weight = Num 0, remarks = [] \<rparr>"
    by (simp add: issued_then_acknowledged_all_def first_line_issued_def two_lines_loaded_def
        page_eval foldl_mark_index upt_0_2 parse_5 parse_blank)
  with reachable_issued_then_acknowledged_all run_issued_then_acknowledged_all
  show ?thesis by simp
qed

text \<open>
  C3 fails on the code for \<open>handleAcknowledgeAll\<close>. With an issue on the first of two
  lines the button \<open>Acknowledge All\<close> is offered; it marks the issued line acknowledged,
  where \<open>handleAcknowledgeAllLines\<close> leaves it alone, and the page then counts three
  resolved items out of two.
\<close>

theorem C3_acknowledge_all_touches_issued_line:
  "run String
     [LoadStart ''T1'',
      LoadSuccess (transfer_of [] [plain_line ''Sugar'', plain_line ''Salt'']),
      OpenIssue 0,
      EditIssueForm \<lparr> form_actual_qty = ''5'', form_actual_total_weight = [], form_remarks = [] \<rparr>,
      SubmitIssue 0]
     initial_state
   = Some first_line_issued \<and>
   offered AcknowledgeAll first_line_issued \<and>
   line_issued first_line_issued 0 \<and> \<not> line_matched first_line_issued 0 \<and>
   line_matched (handleAcknowledgeAll first_line_issued) 0 \<and>
   \<not> line_matched (handleAcknowledgeAllLines first_line_issued) 0 \<and>
   totalMatched (handleAcknowledgeAll first_line_issued) = 3 \<and>
   totalItems (handleAcknowledgeAll first_line_issued) = 2"
proof -
  have "offered AcknowledgeAll first_line_issued \<and>
   line_issued first_line_issued 0 \<and> \<not> line_matched first_line_issued 0 \<and>
   line_matched (handleAcknowledgeAll first_line_issued) 0 \<and>
   \<not> line_matched (handleAcknowledgeAllLines first_line_issued) 0 \<and>
   totalMatched (handleAcknowledgeAll first_line_issued) = 3 \<and>
   totalItems (handleAcknowledgeAll first_line_issued) = 2"
    by (simp add: first_line_issued_def two_lines_loaded_def
        page_eval foldl_mark_index foldl_mark_unless upt_0_2 parse_5 parse_blank)
  with run_first_line_issued show ?thesis by simp
qed

text \<open>What the three bulk handlers do in general.\<close>

lemma acknowledge_all_lines_rule:
  "i < totalLines s \<Longrightarrow>
     line_matched (handleAcknowledgeAllLines s) i = (line_matched s i \<or> \<not> line_issued s i)"
  "linesIssueMap (handleAcknowledgeAllLines s) = linesIssueMap s"
  "boxesMatchMap (handleAcknowledgeAllLines s) = boxesMatchMap s"
  "line_issued s i \<Longrightarrow> linesMatchMap (handleAcknowledgeAllLines s) i = linesMatchMap s i"
  by (auto simp: handleAcknowledgeAllLines_def derived_defs foldl_mark_unless)

lemma acknowledge_all_boxes_rule:
  "b \<in> set (boxes s) \<Longrightarrow> box_matched (handleAcknowledgeAllBoxes s) b"
  "linesMatchMap (handleAcknowledgeAllBoxes s) = linesMatchMap s"
  "linesIssueMap (handleAcknowledgeAllBoxes s) = linesIssueMap s"
  by (auto simp: handleAcknowledgeAllBoxes_def derived_defs foldl_mark)

lemma acknowledge_all_rule:
  "b \<in> set (boxes s) \<Longrightarrow> box_matched (handleAcknowledgeAll s) b"
  "i < totalLines s \<Longrightarrow> line_matched (handleAcknowledgeAll s) i"
  "linesIssueMap (handleAcknowledgeAll s) = linesIssueMap s"
  by (auto simp: handleAcknowledgeAll_def derived_defs foldl_mark foldl_mark_index)

text \<open>
  \<open>loadTransferDetails\<close> starts the two acknowledgement maps afresh and leaves
  \<open>linesIssueMap\<close> as it is: an issue recorded on line \<open>i\<close> of one transfer is still there
  for line \<open>i\<close> of the next.
\<close>

lemma load_keeps_issues: "linesIssueMap (load_success s response) = linesIssueMap s"
  by (simp add: load_success_def)

lemma parseFloat_blank:
  assumes "list_all is_white_space str"
  shows "parseFloat str = NaN"
proof -
  have d: "dropWhile is_white_space str = []"
    using assms by (simp add: list_all_iff)
  show ?thesis unfolding parseFloat_def d by simp
qed

text \<open>
  C9. When neither \<open>actual_qty\<close> nor \<open>actual_total_weight\<close> of the issue form parses as a
  number, and so when both are blank, \<open>handleSubmitIssue\<close> raises the \<open>Error\<close> toast and
  returns before any state setter: the whole page state, the acknowledged and issued
  maps in it, is unchanged. The handler makes no network call on any path.
\<close>

theorem C9_issue_without_number_rejected:
  "(isNaN (parseFloat (form_actual_qty (issueForm s))) \<and>
    isNaN (parseFloat (form_actual_total_weight (issueForm s)))
      \<longrightarrow> handleSubmitIssue s lineIndex = (s, Toast ''Error'' True))
   \<and>
   (list_all is_white_space (form_actual_qty (issueForm s)) \<and>
    list_all is_white_space (form_actual_total_weight (issueForm s))
      \<longrightarrow> handleSubmitIssue s lineIndex = (s, Toast ''Error'' True))"
  by (simp add: handleSubmitIssue_def parseFloat_blank isNaN_def)

text \<open>
  A blank form on a pending line, and a form holding \<open>abc\<close> and a space: both are refused
  and the line stays pending.
\<close>

theorem C9_issue_rejected_witness:
  "handleSubmitIssue (with_issue_form two_lines_loaded 0 blank_form) 0
     = (with_issue_form two_lines_loaded 0 blank_form, Toast ''Error'' True) \<and>
   \<not> line_matched (fst (handleSubmitIssue (with_issue_form two_lines_loaded 0 blank_form) 0)) 0 \<and>
   \<not> line_issued (fst (handleSubmitIssue (with_issue_form two_lines_loaded 0 blank_form) 0)) 0 \<and>
   handleSubmitIssue
     (with_issue_form two_lines_loaded 0
        \<lparr> form_actual_qty = ''abc'', form_actual_total_weight = '' '', form_remarks = ''short'' \<rparr>) 0
     = (with_issue_form two_lines_loaded 0
        \<lparr> form_actual_qty = ''abc'', form_actual_total_weight = '' '', form_remarks = ''short'' \<rparr>,
        Toast ''Error'' True)"
proof -
  let ?s = "with_issue_form two_lines_loaded 0 blank_form"
  let ?t = "with_issue_form two_lines_loaded 0
        \<lparr> form_actual_qty = ''abc'', form_actual_total_weight = '' '', form_remarks = ''short'' \<rparr>"
  have blank: "handleSubmitIssue ?s 0 = (?s, Toast ''Error'' True)"
    by (rule C9_issue_without_number_rejected [THEN conjunct2, THEN mp])
       (simp add: with_issue_form_def blank_form_def)
  have nan: "handleSubmitIssue ?t 0 = (?t, Toast ''Error'' True)"
    by (rule C9_issue_without_number_rejected [THEN conjunct1, THEN mp])
       (simp add: with_issue_form_def parse_eval isNaN_def)
  have still: "\<not> line_matched ?s 0 \<and> \<not> line_issued ?s 0"
    by (simp add: two_lines_loaded_def page_eval foldl_mark_index)
  from blank nan still show ?thesis by simp
qed










section \<open>Properties of the scanner handler\<close>

text \<open>
  C10, as amended. When the scanned text parses as a JSON object whose \<open>transfer_no\<close> is
  truthy, that value is the transfer number; when \<open>transfer_no\<close> is missing or falsy and
  \<open>challan_no\<close> is truthy, \<open>challan_no\<close> is. In every other case (no JSON, JSON that is
  no object, an object with neither key or with falsy values) the raw text is the
  transfer number. \<open>loadTransferDetails\<close> is called with the chosen number and starts a
  lookup when it is a string that is not blank; a blank one is refused with the toast
  that asks for a transfer number. No scan is refused as unrecognized.
\<close>

theorem C10_scan_uses_truthy_key_or_raw_text:
  "(has_truthy_key parsed ''transfer_no''
      \<longrightarrow> transferNumber (handleTransferQRScan parsed decodedText) = key_value parsed ''transfer_no'')
   \<and> (\<not> has_truthy_key parsed ''transfer_no'' \<and> has_truthy_key parsed ''challan_no''
      \<longrightarrow> transferNumber (handleTransferQRScan parsed decodedText) = key_value parsed ''challan_no'')
   \<and> (\<not> has_truthy_key parsed ''transfer_no'' \<and> \<not> has_truthy_key parsed ''challan_no''
      \<longrightarrow> transferNumber (handleTransferQRScan parsed decodedText) = JString decodedText \<and>
          load (handleTransferQRScan parsed decodedText)
            = (if trim decodedText = [] then BlankRefused else LookupStarted decodedText))
   \<and> load (handleTransferQRScan parsed decodedText)
       = loadTransferDetails (transferNumber (handleTransferQRScan parsed decodedText))
   \<and> (transferNumber (handleTransferQRScan parsed decodedText) = JString n \<and> trim n \<noteq> []
      \<longrightarrow> load (handleTransferQRScan parsed decodedText) = LookupStarted n)"
proof -
  have shape: "load (use_transfer_no v) = loadTransferDetails (transferNumber (use_transfer_no v))" for v
    by (simp add: use_transfer_no_def)
  have eff: "load (handleTransferQRScan parsed decodedText)
       = loadTransferDetails (transferNumber (handleTransferQRScan parsed decodedText))"
    by (simp add: handleTransferQRScan_def shape split: option.splits sum.splits)
  show ?thesis
    unfolding eff
    by (cases parsed; cases "the parsed")
       (simp_all add: handleTransferQRScan_def has_truthy_key_def key_value_def get_property_def
          use_transfer_no_def loadTransferDetails_def truthy_json_def)
qed

text \<open>
  An object with both keys, one with an empty \<open>transfer_no\<close>, one with neither key, and
  a text that is no JSON.
\<close>

theorem C10_scan_witness:
  "transferNumber (handleTransferQRScan
      (Some (JObject [(''transfer_no'', JString ''TRANS1''), (''challan_no'', JString ''CH9'')])) ''x'')
     = JString ''TRANS1''
   \<and> transferNumber (handleTransferQRScan
      (Some (JObject [(''transfer_no'', JString []), (''challan_no'', JString ''CH9'')])) ''x'')
     = JString ''CH9''
   \<and> transferNumber (handleTransferQRScan (Some (JObject [(''id'', JNumber 4)])) ''x'') = JString ''x''
   \<and> load (handleTransferQRScan (Some (JObject [(''id'', JNumber 4)])) ''x'') = LookupStarted ''x''
   \<and> load (handleTransferQRScan None ''TRANS202510191445'') = LookupStarted ''TRANS202510191445''"
proof -
  let ?both = "Some (JObject [(''transfer_no'', JString ''TRANS1''), (''challan_no'', JString ''CH9'')])"
  let ?second = "Some (JObject [(''transfer_no'', JString []), (''challan_no'', JString ''CH9'')])"
  let ?neither = "Some (JObject [(''id'', JNumber 4)])"
  have a: "transferNumber (handleTransferQRScan ?both ''x'') = key_value ?both ''transfer_no''"
    by (rule C10_scan_uses_truthy_key_or_raw_text [THEN conjunct1, THEN mp])
       (simp add: has_truthy_key_def truthy_json_def)
  have b: "transferNumber (handleTransferQRScan ?second ''x'') = key_value ?second ''challan_no''"
    by (rule C10_scan_uses_truthy_key_or_raw_text [THEN conjunct2, THEN conjunct1, THEN mp])
       (simp add: has_truthy_key_def truthy_json_def)
  have c: "transferNumber (handleTransferQRScan ?neither ''x'') = JString ''x'' \<and>
          load (handleTransferQRScan ?neither ''x'')
            = (if trim ''x'' = [] then BlankRefused else LookupStarted ''x'')"
    by (rule C10_scan_uses_truthy_key_or_raw_text [THEN conjunct2, THEN conjunct2, THEN conjunct1, THEN mp])
       (simp add: has_truthy_key_def truthy_json_def)
  have d: "load (handleTransferQRScan None ''TRANS202510191445'') = LookupStarted ''TRANS202510191445''"
    by (rule C10_scan_uses_truthy_key_or_raw_text
          [THEN conjunct2, THEN conjunct2, THEN conjunct2, THEN conjunct2, THEN mp])
       (simp add: handleTransferQRScan_def use_transfer_no_def trim_def is_white_space_def)
  from a b c d show ?thesis
    by (simp add: key_value_def trim_def is_white_space_def)
qed

text \<open>
  The text \<open>{"transfer_no":""}\<close> contains \<open>transfer_no\<close>, yet the raw text and not that
  value is used and looked up. For a scan of one space no lookup is attempted.
\<close>

theorem C10_scan_counterexample:
  "transferNumber (handleTransferQRScan (Some (JObject [(''transfer_no'', JString [])]))
      qr_empty_transfer_no) = JString qr_empty_transfer_no
   \<and> JString qr_empty_transfer_no \<noteq> JString []
   \<and> load (handleTransferQRScan (Some (JObject [(''transfer_no'', JString [])]))
      qr_empty_transfer_no) = LookupStarted qr_empty_transfer_no
   \<and> transferNumber (handleTransferQRScan None '' '') = JString '' ''
   \<and> load (handleTransferQRScan None '' '') = BlankRefused"
  by (simp add: handleTransferQRScan_def get_property_def truthy_json_def use_transfer_no_def
      loadTransferDetails_def trim_def is_white_space_def qr_empty_transfer_no_def)

section \<open>Properties of \<open>mergePageResults\<close> on the store\<close>

lemma unchanged_below_refl: "n \<le> next_addr h \<Longrightarrow> unchanged_below n h h"
  by (simp add: unchanged_below_def)

lemma unchanged_below_trans:
  "unchanged_below n h h1 \<Longrightarrow> unchanged_below n h1 h2 \<Longrightarrow> unchanged_below n h h2"
  by (simp add: unchanged_below_def)

lemma new_array_frame:
  "new_array h xs = (h1, r) \<Longrightarrow> n \<le> next_addr h \<Longrightarrow>
     unchanged_below n h h1 \<and> next_addr h1 = Suc (next_addr h) \<and> r = next_addr h"
  by (auto simp: new_array_def unchanged_below_def)

lemma new_object_frame:
  "new_object h po = (h1, a) \<Longrightarrow> n \<le> next_addr h \<Longrightarrow>
     unchanged_below n h h1 \<and> next_addr h1 = Suc (next_addr h) \<and> a = next_addr h"
  by (auto simp: new_object_def unchanged_below_def)

lemma push_copy_frame:
  assumes "push_copy h po arts = (h', a)" "n \<le> next_addr h"
  shows "unchanged_below n h h' \<and> n \<le> a \<and> next_addr h \<le> next_addr h'"
  using assms
  by (auto simp: push_copy_def new_array_def new_object_def unchanged_below_def)

lemma merge_into_store_frame:
  assumes "merge_into_store h existing po arts = (h', r)" "n \<le> next_addr h" "n \<le> existing"
  shows "unchanged_below n h h' \<and> next_addr h \<le> next_addr h'"
  using assms
  by (auto simp: merge_into_store_def new_array_def unchanged_below_def
      split: option.splits sum.splits)

lemma merge_po_store_frame:
  assumes run: "merge_po_store h st po_ref = (h', r)"
    and n: "n \<le> next_addr h" and fresh: "\<forall>a \<in> set (fst st). n \<le> a"
  shows "unchanged_below n h h' \<and> next_addr h \<le> next_addr h' \<and>
         (\<forall>st'. r = Inr st' \<longrightarrow> (\<forall>a \<in> set (fst st'). n \<le> a))"
proof -
  obtain allPOs seen where st: "st = (allPOs, seen)" by (cases st)
  have last_fresh: "allPOs \<noteq> [] \<Longrightarrow> n \<le> allPOs ! (length allPOs - 1)"
    using fresh st nth_mem [of "length allPOs - 1" allPOs] by auto
  have nth_fresh: "\<And>i. i < length allPOs \<Longrightarrow> n \<le> allPOs ! i"
    using fresh st by simp
  show ?thesis
    using run n fresh st
    by (auto simp: merge_po_store_def unchanged_below_refl
        split: option.splits sum.splits if_splits prod.splits
        dest!: push_copy_frame [where n = n] merge_into_store_frame [where n = n]
        dest: nth_fresh last_fresh)
qed

lemma merge_pos_store_frame:
  "merge_pos_store h st pos = (h', r) \<Longrightarrow> n \<le> next_addr h \<Longrightarrow> \<forall>a \<in> set (fst st). n \<le> a \<Longrightarrow>
     unchanged_below n h h' \<and> next_addr h \<le> next_addr h' \<and>
     (\<forall>st'. r = Inr st' \<longrightarrow> (\<forall>a \<in> set (fst st'). n \<le> a))"
proof (induction pos arbitrary: h st)
  case Nil
  then show ?case by (auto simp: unchanged_below_refl)
next
  case (Cons po_ref rest)
  obtain h1 r1 where s1: "merge_po_store h st po_ref = (h1, r1)" by (cases "merge_po_store h st po_ref")
  note f1 = merge_po_store_frame [OF s1 Cons.prems(2) Cons.prems(3)]
  show ?case
  proof (cases r1)
    case (Inl e)
    with Cons.prems(1) s1 f1 show ?thesis by auto
  next
    case (Inr st1)
    with Cons.prems(1) s1 have run: "merge_pos_store h1 st1 rest = (h', r)" by simp
    have n1: "n \<le> next_addr h1" using f1 Cons.prems(2) by simp
    have fresh1: "\<forall>a \<in> set (fst st1). n \<le> a" using f1 Inr by simp
    from Cons.IH [OF run n1 fresh1] f1 show ?thesis
      by (auto intro: unchanged_below_trans)
  qed
qed

lemma merge_pages_store_frame:
  "merge_pages_store h st pages = (h', r) \<Longrightarrow> n \<le> next_addr h \<Longrightarrow> \<forall>a \<in> set (fst st). n \<le> a \<Longrightarrow>
     unchanged_below n h h' \<and> next_addr h \<le> next_addr h' \<and>
     (\<forall>st'. r = Inr st' \<longrightarrow> (\<forall>a \<in> set (fst st'). n \<le> a))"
proof (induction pages arbitrary: h st)
  case Nil
  then show ?case by (auto simp: unchanged_below_refl)
next
  case (Cons page pages)
  show ?case
  proof (cases "purchase_orders page")
    case None
    with Cons show ?thesis by simp
  next
    case (Some pos)
    show ?thesis
    proof (cases "pos = []")
      case True
      with Some Cons show ?thesis by simp
    next
      case False
      obtain h1 r1 where s1: "merge_pos_store h st pos = (h1, r1)" by (cases "merge_pos_store h st pos")
      note f1 = merge_pos_store_frame [OF s1 Cons.prems(2) Cons.prems(3)]
      show ?thesis
      proof (cases r1)
        case (Inl e)
        with Cons.prems(1) s1 f1 Some False show ?thesis by auto
      next
        case (Inr st1)
        with Cons.prems(1) s1 Some False have run: "merge_pages_store h1 st1 pages = (h', r)" by simp
        have n1: "n \<le> next_addr h1" using f1 Cons.prems(2) by simp
        have fresh1: "\<forall>a \<in> set (fst st1). n \<le> a" using f1 Inr by simp
        from Cons.IH [OF run n1 fresh1] f1 show ?thesis
          by (auto intro: unchanged_below_trans)
      qed
    qed
  qed
qed

lemma mergePageResults_store_frame:
  assumes "mergePageResults_store h pages = (h', r)"
  shows "unchanged_below (next_addr h) h h' \<and>
         (\<forall>out. r = Inr out \<longrightarrow> (\<forall>a \<in> set out. next_addr h \<le> a))"
proof -
  obtain h1 r1 where s1: "merge_pages_store h ([], Map.empty) pages = (h1, r1)"
    by (cases "merge_pages_store h ([], Map.empty) pages")
  from merge_pages_store_frame [OF s1, of "next_addr h"]
  have f: "unchanged_below (next_addr h) h h1 \<and>
     (\<forall>st'. r1 = Inr st' \<longrightarrow> (\<forall>a \<in> set (fst st'). next_addr h \<le> a))"
    by simp
  from assms s1 have "h' = h1" "r = map_sum id fst r1"
    by (auto simp: mergePageResults_store_def split: sum.splits)
  with f show ?thesis by (cases r1) auto
qed

lemma agree_except_stable:
  assumes "agree_except x h h'" "entry_ok h b" "b \<noteq> x"
  shows "value_of h' b = value_of h b \<and> entry_ok h' b"
proof -
  from assms(2) obtain po where po: "b < next_addr h" "objects h b = Some po"
    by (auto simp: entry_ok_def split: option.splits)
  with assms have o': "objects h' b = Some po" by (simp add: agree_except_def)
  show ?thesis
  proof (cases "articles po")
    case None
    with po o' assms(1) show ?thesis
      by (simp add: value_of_def entry_ok_def agree_except_def)
  next
    case (Some r)
    with assms(2) po have r: "r < next_addr h" "arrays h r \<noteq> None"
      by (auto simp: entry_ok_def)
    with assms(1) have "arrays h' r = arrays h r" by (simp add: agree_except_def)
    with po o' Some r assms(1) show ?thesis
      by (auto simp: value_of_def entry_ok_def agree_except_def)
  qed
qed

lemma with_articles_update [simp]:
  "with_articles (po\<lparr>articles := x\<rparr>) y = with_articles po y"
  by (simp add: with_articles_def)

lemma poNum_with_articles [simp]: "poNum (with_articles po y) = poNum po"
  by (simp add: poNum_def with_articles_def)

lemma articles_of_with_articles [simp]:
  "articles_of (with_articles po y) = (case y of None \<Rightarrow> [] | Some xs \<Rightarrow> xs)"
  by (simp add: articles_of_def with_articles_def)

lemma with_articles_fillFields:
  "with_articles (fillFields e po) y = fillFields (with_articles e y) (with_articles po z)"
  by (simp add: with_articles_def fillFields_def)

lemma with_articles_self: "(with_articles po y)\<lparr>articles := z\<rparr> = with_articles po z"
  by (simp add: with_articles_def)

lemma push_copy_sim:
  assumes "push_copy h po arts = (h', a)"
  shows "a = Suc (next_addr h) \<and> next_addr h' = Suc (Suc (next_addr h)) \<and>
         value_of h' a = Some (with_articles po (Some arts)) \<and> entry_ok h' a \<and>
         agree_except a h h'"
  using assms
  by (auto simp: push_copy_def new_array_def new_object_def value_of_def entry_ok_def
      agree_except_def)

lemma merge_into_store_sim:
  assumes ok: "entry_ok h x" and v: "value_of h x = Some ev"
    and run: "merge_into_store h x po arts = (h', r)"
  shows "r = Inr () \<and> agree_except x h h' \<and> entry_ok h' x \<and>
         value_of h' x =
           Some (fillFields (ev\<lparr>articles := Some (articles_of ev @ arts)\<rparr>) (with_articles po z))"
proof -
  from ok obtain e where e: "objects h x = Some e" "x < next_addr h"
    by (auto simp: entry_ok_def split: option.splits)
  show ?thesis
  proof (cases "articles e")
    case None
    with e v have ev: "ev = with_articles e None" by (simp add: value_of_def)
    have rd: "read_articles h e = Inr []" using None by (simp add: read_articles_def)
    from run e rd have h': "h' = (fst (new_array h arts))\<lparr>objects :=
        (objects (fst (new_array h arts)))(x \<mapsto> fillFields (e\<lparr>articles := Some (next_addr h)\<rparr>) po)\<rparr>"
      and r: "r = Inr ()"
      by (auto simp: merge_into_store_def new_array_def)
    have val: "value_of h' x = Some (with_articles (fillFields (e\<lparr>articles := Some (next_addr h)\<rparr>) po) (Some arts))"
      by (simp add: h' value_of_def new_array_def fillFields_def)
    have "with_articles (fillFields (e\<lparr>articles := Some (next_addr h)\<rparr>) po) (Some arts)
            = fillFields (ev\<lparr>articles := Some (articles_of ev @ arts)\<rparr>) (with_articles po z)"
      by (simp add: ev with_articles_fillFields [where z = z] with_articles_self)
    with val r e show ?thesis
      by (auto simp: h' new_array_def agree_except_def entry_ok_def fillFields_def)
  next
    case (Some r0)
    with ok e obtain old where old: "arrays h r0 = Some old" "r0 < next_addr h"
      by (auto simp: entry_ok_def)
    with e v Some have ev: "ev = with_articles e (Some old)" by (simp add: value_of_def)
    have rd: "read_articles h e = Inr old" using Some old by (simp add: read_articles_def)
    from run e rd have h': "h' = (fst (new_array h (old @ arts)))\<lparr>objects :=
        (objects (fst (new_array h (old @ arts))))(x \<mapsto> fillFields (e\<lparr>articles := Some (next_addr h)\<rparr>) po)\<rparr>"
      and r: "r = Inr ()"
      by (auto simp: merge_into_store_def new_array_def)
    have val: "value_of h' x = Some (with_articles (fillFields (e\<lparr>articles := Some (next_addr h)\<rparr>) po) (Some (old @ arts)))"
      by (simp add: h' value_of_def new_array_def fillFields_def)
    have "with_articles (fillFields (e\<lparr>articles := Some (next_addr h)\<rparr>) po) (Some (old @ arts))
            = fillFields (ev\<lparr>articles := Some (articles_of ev @ arts)\<rparr>) (with_articles po z)"
      by (simp add: ev with_articles_fillFields [where z = z] with_articles_self)
    with val r e show ?thesis
      by (auto simp: h' new_array_def agree_except_def entry_ok_def fillFields_def)
  qed
qed

lemma sim_length: "sim n h (allPOs, seen) (ps, seen') \<Longrightarrow> length allPOs = length ps"
  unfolding sim_def using map_eq_imp_length_eq by fastforce

lemma sim_nth:
  "sim n h (allPOs, seen) (ps, seen') \<Longrightarrow> i < length allPOs \<Longrightarrow> value_of h (allPOs ! i) = Some (ps ! i)"
proof -
  assume s: "sim n h (allPOs, seen) (ps, seen')" and i: "i < length allPOs"
  then have "map (value_of h) allPOs ! i = map Some ps ! i" by (simp add: sim_def)
  with i sim_length [OF s] show ?thesis by simp
qed

lemma sim_update:
  assumes s: "sim n h (allPOs, seen) (ps, seen)" and i: "i < length allPOs"
    and ag: "agree_except (allPOs ! i) h h'" and ok: "entry_ok h' (allPOs ! i)"
    and v: "value_of h' (allPOs ! i) = Some v"
  shows "sim n h' (allPOs, seen) (ps[i := v], seen)"
proof -
  have len: "length allPOs = length ps" using s by (rule sim_length)
  have d: "distinct allPOs" using s by (simp add: sim_def)
  have vals: "map (value_of h') allPOs = map Some (ps[i := v])"
  proof (rule nth_equalityI)
    show "length (map (value_of h') allPOs) = length (map Some (ps[i := v]))" using len by simp
  next
    fix j assume "j < length (map (value_of h') allPOs)"
    then have j: "j < length allPOs" by simp
    show "map (value_of h') allPOs ! j = map Some (ps[i := v]) ! j"
    proof (cases "j = i")
      case True
      with j len v show ?thesis by simp
    next
      case False
      with d i j have ne: "allPOs ! j \<noteq> allPOs ! i" by (simp add: nth_eq_iff_index_eq)
      have "entry_ok h (allPOs ! j)" using s j by (simp add: sim_def)
      with ag ne have "value_of h' (allPOs ! j) = value_of h (allPOs ! j)"
        using agree_except_stable by blast
      with sim_nth [OF s j] j len False show ?thesis by simp
    qed
  qed
  have oks: "\<forall>a \<in> set allPOs. n \<le> a \<and> entry_ok h' a"
  proof
    fix a assume a: "a \<in> set allPOs"
    then have "n \<le> a" "entry_ok h a" using s by (simp_all add: sim_def)
    then show "n \<le> a \<and> entry_ok h' a"
      using ag ok agree_except_stable [of "allPOs ! i" h h' a] by (cases "a = allPOs ! i") auto
  qed
  have "n \<le> next_addr h'" using s ag by (simp add: sim_def agree_except_def)
  with vals oks d show ?thesis by (simp add: sim_def)
qed

lemma sim_push:
  assumes s: "sim n h (allPOs, seen) (ps, seen)"
    and ag: "agree_except a h h'" and fresh: "next_addr h \<le> a" and ok: "entry_ok h' a"
    and v: "value_of h' a = Some v"
  shows "sim n h' (allPOs @ [a], seen') (ps @ [v], seen')"
proof -
  have old: "\<forall>b \<in> set allPOs. b < next_addr h \<and> entry_ok h b \<and> n \<le> b"
    using s by (auto simp: sim_def entry_ok_def)
  then have ne: "\<forall>b \<in> set allPOs. b \<noteq> a" using fresh by auto
  have stable: "\<forall>b \<in> set allPOs. value_of h' b = value_of h b \<and> entry_ok h' b"
    using old ne ag agree_except_stable by blast
  then have "map (value_of h') allPOs = map (value_of h) allPOs" by simp
  moreover have "map (value_of h) allPOs = map Some ps" using s by (simp add: sim_def)
  ultimately have vals: "map (value_of h') (allPOs @ [a]) = map Some (ps @ [v])"
    using v by simp
  have "n \<le> a" using s fresh by (simp add: sim_def)
  moreover have "n \<le> next_addr h'" using s ag by (simp add: sim_def agree_except_def)
  moreover have "distinct (allPOs @ [a])" using s ne by (auto simp: sim_def)
  ultimately show ?thesis using vals old stable ok by (auto simp: sim_def)
qed

lemma entry_value:
  assumes "entry_ok h a"
  shows "\<exists>po arts. objects h a = Some po \<and> read_articles h po = Inr arts \<and>
           the (value_of h a) = with_articles po (map_option (\<lambda>r. arts) (articles po)) \<and>
           articles_of (the (value_of h a)) = arts \<and> poNum (the (value_of h a)) = poNum po"
  using assms
  by (auto simp: entry_ok_def value_of_def read_articles_def split: option.splits)

lemma inputs_stable:
  assumes "agree_except x h h'" "n \<le> x"
  shows "\<forall>b. b < n \<longrightarrow> entry_ok h b \<longrightarrow> value_of h' b = value_of h b \<and> entry_ok h' b"
  using assms agree_except_stable [of x h h'] by auto

lemma merge_po_store_sim:
  assumes s: "sim n h st pst" and ok: "entry_ok h po_ref"
    and run: "merge_po_store h st po_ref = (h', r)"
  shows "(case r of
            Inl e \<Rightarrow> merge_po pst (the (value_of h po_ref)) = Inl e
          | Inr st' \<Rightarrow> (\<exists>pst'. merge_po pst (the (value_of h po_ref)) = Inr pst' \<and> sim n h' st' pst'))
         \<and> (\<forall>b. b < n \<longrightarrow> entry_ok h b \<longrightarrow> value_of h' b = value_of h b \<and> entry_ok h' b)"
proof -
  obtain allPOs seen where st: "st = (allPOs, seen)" by (cases st)
  obtain ps seen' where pst0: "pst = (ps, seen')" by (cases pst)
  have seen_eq: "seen' = seen" using s st pst0 by (simp add: sim_def)
  with pst0 have pst: "pst = (ps, seen)" by simp
  have s': "sim n h (allPOs, seen) (ps, seen)" using s st pst by simp
  have len: "length allPOs = length ps" using s' by (rule sim_length)
  let ?pv = "the (value_of h po_ref)"
  from entry_value [OF ok] obtain po arts where
    po: "objects h po_ref = Some po" and rd: "read_articles h po = Inr arts"
    and pv: "?pv = with_articles po (map_option (\<lambda>r. arts) (articles po))"
    and pv_arts: "articles_of ?pv = arts" and pv_key: "poNum ?pv = poNum po"
    by blast
  have pushed: "?pv\<lparr>articles := Some (articles_of ?pv)\<rparr> = with_articles po (Some arts)"
    unfolding pv_arts by (simp add: pv with_articles_self)
  have into: "\<And>ev. merge_into ev ?pv =
      fillFields (ev\<lparr>articles := Some (articles_of ev @ arts)\<rparr>)
        (with_articles po (map_option (\<lambda>r. arts) (articles po)))"
    unfolding merge_into_def pv_arts by (simp add: pv)
  have merged: "\<And>i r0. i < length allPOs \<Longrightarrow>
      merge_into_store h (allPOs ! i) po arts = (h', r0) \<Longrightarrow>
      r0 = Inr () \<and> sim n h' (allPOs, seen) (ps[i := merge_into (ps ! i) ?pv], seen) \<and>
      (\<forall>b. b < n \<longrightarrow> entry_ok h b \<longrightarrow> value_of h' b = value_of h b \<and> entry_ok h' b)"
  proof -
    fix i r0 assume i: "i < length allPOs" and m: "merge_into_store h (allPOs ! i) po arts = (h', r0)"
    have eok: "entry_ok h (allPOs ! i)" and fresh: "n \<le> allPOs ! i"
      using s' i by (simp_all add: sim_def)
    from merge_into_store_sim [OF eok sim_nth [OF s' i] m,
        where z = "map_option (\<lambda>r. arts) (articles po)"]
    have r: "r0 = Inr ()" and ag: "agree_except (allPOs ! i) h h'" and ok': "entry_ok h' (allPOs ! i)"
      and v: "value_of h' (allPOs ! i) = Some (merge_into (ps ! i) ?pv)"
      by (simp_all add: into)
    from sim_update [OF s' i ag ok' v] r inputs_stable [OF ag fresh]
    show "r0 = Inr () \<and> sim n h' (allPOs, seen) (ps[i := merge_into (ps ! i) ?pv], seen) \<and>
      (\<forall>b. b < n \<longrightarrow> entry_ok h b \<longrightarrow> value_of h' b = value_of h b \<and> entry_ok h' b)"
      by simp
  qed
  have appended: "\<And>a seen2. push_copy h po arts = (h', a) \<Longrightarrow>
      sim n h' (allPOs @ [a], seen2) (ps @ [?pv\<lparr>articles := Some (articles_of ?pv)\<rparr>], seen2) \<and>
      (\<forall>b. b < n \<longrightarrow> entry_ok h b \<longrightarrow> value_of h' b = value_of h b \<and> entry_ok h' b)"
  proof -
    fix a seen2 assume p: "push_copy h po arts = (h', a)"
    from push_copy_sim [OF p] have a: "a = Suc (next_addr h)"
      and v: "value_of h' a = Some (with_articles po (Some arts))" and ok': "entry_ok h' a"
      and ag: "agree_except a h h'"
      by blast+
    have fresh: "next_addr h \<le> a" using a by simp
    have "n \<le> a" using s' a by (simp add: sim_def)
    from sim_push [OF s' ag fresh ok', of _ seen2] v pushed inputs_stable [OF ag \<open>n \<le> a\<close>]
    show "sim n h' (allPOs @ [a], seen2) (ps @ [?pv\<lparr>articles := Some (articles_of ?pv)\<rparr>], seen2) \<and>
      (\<forall>b. b < n \<longrightarrow> entry_ok h b \<longrightarrow> value_of h' b = value_of h b \<and> entry_ok h' b)"
      by simp
  qed
  show ?thesis
  proof (cases "poNum po = None \<and> arts = []")
    case True
    with run st po rd have "h' = h" "r = Inr (allPOs, seen)"
      by (simp_all add: merge_po_store_def)
    with True s' pst pv_arts pv_key show ?thesis
      by (auto simp: merge_po_def)
  next
    case nonskip: False
    show ?thesis
    proof (cases "poNum po")
      case None
      with nonskip have ne: "arts \<noteq> []" by simp
      show ?thesis
      proof (cases "allPOs = []")
        case True
        with run st po rd None ne obtain a where
          p: "push_copy h po arts = (h', a)" and r: "r = Inr (allPOs @ [a], seen)"
          by (auto simp: merge_po_store_def split: prod.splits)
        from appended [OF p, of seen] r True len None ne pst pv_arts pv_key show ?thesis
          by (auto simp: merge_po_def)
      next
        case False
        then have i: "length allPOs - 1 < length allPOs" by simp
        from run st po rd None ne False obtain r0 where
          m: "merge_into_store h (allPOs ! (length allPOs - 1)) po arts = (h', r0)"
          and r: "r = (case r0 of Inl err \<Rightarrow> Inl err | Inr u \<Rightarrow> Inr (allPOs, seen))"
          by (auto simp: merge_po_store_def split: prod.splits sum.splits)
        from merged [OF i] m r False len None ne pst pv_arts pv_key i show ?thesis
          by (auto simp: merge_po_def)
      qed
    next
      case (Some k)
      show ?thesis
      proof (cases "in_seen seen k")
        case False
        with run st po rd Some nonskip obtain a where
          p: "push_copy h po arts = (h', a)"
          and r: "r = Inr (allPOs @ [a], seen(k \<mapsto> length allPOs))"
          by (auto simp: merge_po_store_def split: prod.splits)
        from appended [OF p, of "seen(k \<mapsto> length allPOs)"] r False len Some nonskip pst pv_arts pv_key
        show ?thesis
          by (auto simp: merge_po_def)
      next
        case True
        show ?thesis
        proof (cases "seen k")
          case None
          with run st po rd Some nonskip True have "h' = h" "r = Inl TypeError"
            by (auto simp: merge_po_store_def)
          with None True Some nonskip pst pv_arts pv_key show ?thesis
            by (auto simp: merge_po_def)
        next
          case (Some i)
          show ?thesis
          proof (cases "i < length allPOs")
            case False
            with run st po rd \<open>poNum po = Some k\<close> nonskip True Some have "h' = h" "r = Inl TypeError"
              by (auto simp: merge_po_store_def)
            with False Some True \<open>poNum po = Some k\<close> nonskip pst pv_arts pv_key len show ?thesis
              by (auto simp: merge_po_def)
          next
            case i: True
            from run st po rd \<open>poNum po = Some k\<close> nonskip True Some i obtain r0 where
              m: "merge_into_store h (allPOs ! i) po arts = (h', r0)"
              and r: "r = (case r0 of Inl err \<Rightarrow> Inl err | Inr u \<Rightarrow> Inr (allPOs, seen))"
              by (auto simp: merge_po_store_def split: prod.splits sum.splits)
            from merged [OF i] m r i Some True \<open>poNum po = Some k\<close> nonskip pst pv_arts pv_key len
            show ?thesis
              by (auto simp: merge_po_def)
          qed
        qed
      qed
    qed
  qed
qed

lemma stable_inputs_refl: "stable_inputs n h h"
  by (simp add: stable_inputs_def)

lemma stable_inputs_trans:
  "stable_inputs n h h1 \<Longrightarrow> stable_inputs n h1 h2 \<Longrightarrow> stable_inputs n h h2"
  by (simp add: stable_inputs_def)

lemma stable_inputs_map:
  assumes "stable_inputs n h h1" "\<forall>a \<in> set pos. a < n \<and> entry_ok h a"
  shows "map (\<lambda>a. the (value_of h1 a)) pos = map (\<lambda>a. the (value_of h a)) pos"
    and "\<forall>a \<in> set pos. a < n \<and> entry_ok h1 a"
  using assms by (auto simp: stable_inputs_def)

lemma merge_pos_store_sim:
  "sim n h st pst \<Longrightarrow> \<forall>a \<in> set pos. a < n \<and> entry_ok h a \<Longrightarrow>
   merge_pos_store h st pos = (h', r) \<Longrightarrow>
     (case r of
        Inl e \<Rightarrow> merge_pos pst (map (\<lambda>a. the (value_of h a)) pos) = Inl e
      | Inr st' \<Rightarrow>
          (\<exists>pst'. merge_pos pst (map (\<lambda>a. the (value_of h a)) pos) = Inr pst' \<and> sim n h' st' pst'))
     \<and> stable_inputs n h h'"
proof (induction pos arbitrary: h st pst)
  case Nil
  then show ?case by (auto simp: stable_inputs_refl)
next
  case (Cons a rest)
  obtain h1 r1 where s1: "merge_po_store h st a = (h1, r1)" by (cases "merge_po_store h st a")
  have ok: "entry_ok h a" using Cons.prems(2) by simp
  from merge_po_store_sim [OF Cons.prems(1) ok s1]
  have step: "case r1 of
            Inl e \<Rightarrow> merge_po pst (the (value_of h a)) = Inl e
          | Inr st' \<Rightarrow> (\<exists>pst'. merge_po pst (the (value_of h a)) = Inr pst' \<and> sim n h1 st' pst')"
    and stab: "stable_inputs n h h1"
    by (simp_all add: stable_inputs_def)
  show ?case
  proof (cases r1)
    case (Inl e)
    with Cons.prems(3) s1 step stab show ?thesis by auto
  next
    case (Inr st1)
    with step obtain pst1 where p1: "merge_po pst (the (value_of h a)) = Inr pst1"
      and sim1: "sim n h1 st1 pst1" by auto
    from Cons.prems(3) s1 Inr have run: "merge_pos_store h1 st1 rest = (h', r)" by simp
    have rest: "\<forall>b \<in> set rest. b < n \<and> entry_ok h b" using Cons.prems(2) by simp
    note m = stable_inputs_map [OF stab rest]
    note ih = Cons.IH [OF sim1 m(2) run, unfolded m(1)]
    from ih p1 stab show ?thesis
      by (auto split: sum.splits intro: stable_inputs_trans)
  qed
qed

lemma page_value_stable:
  assumes "stable_inputs n h h1" "page_entries_ok n h pages"
  shows "map (page_value h1) pages = map (page_value h) pages" and "page_entries_ok n h1 pages"
proof -
  have "\<And>page. page \<in> set pages \<Longrightarrow> page_value h1 page = page_value h page"
  proof -
    fix page assume p: "page \<in> set pages"
    show "page_value h1 page = page_value h page"
    proof (cases "purchase_orders page")
      case None
      then show ?thesis by (simp add: page_value_def)
    next
      case (Some pos)
      with p assms(2) have "\<forall>a \<in> set pos. a < n \<and> entry_ok h a"
        by (auto simp: page_entries_ok_def)
      from stable_inputs_map(1) [OF assms(1) this] Some show ?thesis
        by (simp add: page_value_def)
    qed
  qed
  then show "map (page_value h1) pages = map (page_value h) pages" by simp
  show "page_entries_ok n h1 pages"
    using assms by (auto simp: page_entries_ok_def stable_inputs_def)
qed

lemma purchase_orders_page_value:
  "purchase_orders (page_value h page)
     = map_option (map (\<lambda>a. the (value_of h a))) (purchase_orders page)"
  by (simp add: page_value_def)

lemma merge_pages_store_sim:
  "sim n h st pst \<Longrightarrow> page_entries_ok n h pages \<Longrightarrow>
   merge_pages_store h st pages = (h', r) \<Longrightarrow>
     (case r of
        Inl e \<Rightarrow> merge_pages pst (map (page_value h) pages) = Inl e
      | Inr st' \<Rightarrow>
          (\<exists>pst'. merge_pages pst (map (page_value h) pages) = Inr pst' \<and> sim n h' st' pst'))
     \<and> stable_inputs n h h'"
proof (induction pages arbitrary: h st pst)
  case Nil
  then show ?case by (auto simp: stable_inputs_refl)
next
  case (Cons page pages)
  have rest_ok: "page_entries_ok n h pages"
    using Cons.prems(2) by (simp add: page_entries_ok_def)
  show ?case
  proof (cases "purchase_orders page")
    case None
    with Cons.prems(3) have run: "merge_pages_store h st pages = (h', r)" by simp
    from Cons.IH [OF Cons.prems(1) rest_ok run] None show ?thesis
      by (auto simp: purchase_orders_page_value split: sum.splits)
  next
    case (Some pos)
    show ?thesis
    proof (cases "pos = []")
      case True
      with Some Cons.prems(3) have run: "merge_pages_store h st pages = (h', r)" by simp
      from Cons.IH [OF Cons.prems(1) rest_ok run] Some True show ?thesis
        by (auto simp: purchase_orders_page_value split: sum.splits)
    next
      case False
      obtain h1 r1 where s1: "merge_pos_store h st pos = (h1, r1)"
        by (cases "merge_pos_store h st pos")
      have pos_ok: "\<forall>a \<in> set pos. a < n \<and> entry_ok h a"
        using Cons.prems(2) Some by (simp add: page_entries_ok_def)
      from merge_pos_store_sim [OF Cons.prems(1) pos_ok s1]
      have step: "case r1 of
          Inl e \<Rightarrow> merge_pos pst (map (\<lambda>a. the (value_of h a)) pos) = Inl e
        | Inr st' \<Rightarrow>
            (\<exists>pst'. merge_pos pst (map (\<lambda>a. the (value_of h a)) pos) = Inr pst' \<and> sim n h1 st' pst')"
        and stab: "stable_inputs n h h1"
        by simp_all
      have here: "purchase_orders (page_value h page) = Some (map (\<lambda>a. the (value_of h a)) pos)"
        using Some by (simp add: page_value_def)
      show ?thesis
      proof (cases r1)
        case (Inl e)
        with Cons.prems(3) s1 Some False step stab here show ?thesis by auto
      next
        case (Inr st1)
        with step obtain pst1 where
          p1: "merge_pos pst (map (\<lambda>a. the (value_of h a)) pos) = Inr pst1"
          and sim1: "sim n h1 st1 pst1" by auto
        from Cons.prems(3) s1 Inr Some False have run: "merge_pages_store h1 st1 pages = (h', r)"
          by simp
        note pv = page_value_stable [OF stab rest_ok]
        note ih = Cons.IH [OF sim1 pv(2) run, unfolded pv(1)]
        from ih p1 stab here False show ?thesis
          by (auto split: sum.splits intro: stable_inputs_trans)
      qed
    qed
  qed
qed

lemma pages_ok_entries: "pages_ok h pages \<Longrightarrow> page_entries_ok (next_addr h) h pages"
  by (auto simp: pages_ok_def page_entries_ok_def list_all_iff entry_ok_def split: option.splits)

lemma sim_start: "sim (next_addr h) h ([], Map.empty) ([], Map.empty)"
  by (simp add: sim_def)

lemma sim_values:
  assumes "sim n h st pst"
  shows "map (\<lambda>a. the (value_of h a)) (fst st) = fst pst"
proof -
  from assms have "map (value_of h) (fst st) = map Some (fst pst)" by (simp add: sim_def)
  then have "map the (map (value_of h) (fst st)) = map the (map Some (fst pst))" by simp
  then show ?thesis by (simp add: comp_def)
qed

lemma mergePageResults_store_refines:
  assumes ok: "pages_ok h pages" and run: "mergePageResults_store h pages = (h', r)"
  shows "map_sum id (map (\<lambda>a. the (value_of h' a))) r = mergePageResults (map (page_value h) pages)"
    and "map (page_value h') pages = map (page_value h) pages"
proof -
  obtain h1 r1 where s1: "merge_pages_store h ([], Map.empty) pages = (h1, r1)"
    by (cases "merge_pages_store h ([], Map.empty) pages")
  from run s1 have h1: "h1 = h'" and r: "r = map_sum id fst r1"
    by (auto simp: mergePageResults_store_def split: sum.splits)
  from merge_pages_store_sim [OF sim_start pages_ok_entries [OF ok] s1]
  have step: "case r1 of
        Inl e \<Rightarrow> merge_pages ([], Map.empty) (map (page_value h) pages) = Inl e
      | Inr st' \<Rightarrow>
          (\<exists>pst'. merge_pages ([], Map.empty) (map (page_value h) pages) = Inr pst' \<and>
                  sim (next_addr h) h1 st' pst')"
    and stab: "stable_inputs (next_addr h) h h1"
    by simp_all
  show "map_sum id (map (\<lambda>a. the (value_of h' a))) r = mergePageResults (map (page_value h) pages)"
  proof (cases r1)
    case (Inl e)
    with step r show ?thesis by (simp add: mergePageResults_def)
  next
    case (Inr st1)
    with step obtain pst1 where
      p: "merge_pages ([], Map.empty) (map (page_value h) pages) = Inr pst1"
      and s: "sim (next_addr h) h1 st1 pst1" by auto
    from sim_values [OF s] p r Inr h1 show ?thesis by (simp add: mergePageResults_def)
  qed
  from page_value_stable(1) [OF stab pages_ok_entries [OF ok]] h1
  show "map (page_value h') pages = map (page_value h) pages" by simp
qed

lemma articles_fillFields [simp]: "articles (fillFields e po) = articles e"
  by (simp add: fillFields_def)

lemma push_copy_own:
  assumes "push_copy h po arts = (h', a)" "n \<le> next_addr h"
  shows "own_array n h' a \<and> (\<forall>b. own_array n h b \<longrightarrow> own_array n h' b)"
  using assms
  by (auto simp: push_copy_def new_array_def new_object_def own_array_def
      split: option.splits if_splits)

lemma merge_into_store_own:
  assumes "merge_into_store h x po arts = (h', r)" "n \<le> next_addr h"
  shows "\<forall>b. own_array n h b \<longrightarrow> own_array n h' b"
  using assms
  by (auto simp: merge_into_store_def new_array_def own_array_def
      split: option.splits sum.splits if_splits)

lemma merge_po_store_own:
  assumes run: "merge_po_store h st po_ref = (h', r)"
    and n: "n \<le> next_addr h" and own: "\<forall>a \<in> set (fst st). own_array n h a"
  shows "\<forall>st'. r = Inr st' \<longrightarrow> (\<forall>a \<in> set (fst st'). own_array n h' a)"
proof -
  obtain allPOs seen where st: "st = (allPOs, seen)" by (cases st)
  show ?thesis
    using run n own st
    by (auto simp: merge_po_store_def
        split: option.splits sum.splits if_splits prod.splits
        dest!: push_copy_own [where n = n] merge_into_store_own [where n = n])
qed

lemma merge_pos_store_own:
  "merge_pos_store h st pos = (h', r) \<Longrightarrow> n \<le> next_addr h \<Longrightarrow>
   \<forall>a \<in> set (fst st). n \<le> a \<and> own_array n h a \<Longrightarrow>
     \<forall>st'. r = Inr st' \<longrightarrow> (\<forall>a \<in> set (fst st'). own_array n h' a)"
proof (induction pos arbitrary: h st)
  case Nil
  then show ?case by auto
next
  case (Cons po_ref rest)
  obtain h1 r1 where s1: "merge_po_store h st po_ref = (h1, r1)" by (cases "merge_po_store h st po_ref")
  have fresh: "\<forall>a \<in> set (fst st). n \<le> a" and own: "\<forall>a \<in> set (fst st). own_array n h a"
    using Cons.prems(3) by simp_all
  note f1 = merge_po_store_frame [OF s1 Cons.prems(2) fresh]
  note o1 = merge_po_store_own [OF s1 Cons.prems(2) own]
  show ?case
  proof (cases r1)
    case (Inl e)
    with Cons.prems(1) s1 show ?thesis by auto
  next
    case (Inr st1)
    with Cons.prems(1) s1 have run: "merge_pos_store h1 st1 rest = (h', r)" by simp
    have n1: "n \<le> next_addr h1" using f1 Cons.prems(2) by simp
    have inv1: "\<forall>a \<in> set (fst st1). n \<le> a \<and> own_array n h1 a" using f1 o1 Inr by simp
    from Cons.IH [OF run n1 inv1] show ?thesis .
  qed
qed

lemma merge_pages_store_own:
  "merge_pages_store h st pages = (h', r) \<Longrightarrow> n \<le> next_addr h \<Longrightarrow>
   \<forall>a \<in> set (fst st). n \<le> a \<and> own_array n h a \<Longrightarrow>
     \<forall>st'. r = Inr st' \<longrightarrow> (\<forall>a \<in> set (fst st'). own_array n h' a)"
proof (induction pages arbitrary: h st)
  case Nil
  then show ?case by auto
next
  case (Cons page pages)
  show ?case
  proof (cases "purchase_orders page")
    case None
    with Cons show ?thesis by simp
  next
    case (Some pos)
    show ?thesis
    proof (cases "pos = []")
      case True
      with Some Cons show ?thesis by simp
    next
      case False
      obtain h1 r1 where s1: "merge_pos_store h st pos = (h1, r1)" by (cases "merge_pos_store h st pos")
      have fresh: "\<forall>a \<in> set (fst st). n \<le> a" using Cons.prems(3) by simp
      note f1 = merge_pos_store_frame [OF s1 Cons.prems(2) fresh]
      note o1 = merge_pos_store_own [OF s1 Cons.prems(2) Cons.prems(3)]
      show ?thesis
      proof (cases r1)
        case (Inl e)
        with Cons.prems(1) s1 Some False show ?thesis by auto
      next
        case (Inr st1)
        with Cons.prems(1) s1 Some False have run: "merge_pages_store h1 st1 pages = (h', r)" by simp
        have n1: "n \<le> next_addr h1" using f1 Cons.prems(2) by simp
        have inv1: "\<forall>a \<in> set (fst st1). n \<le> a \<and> own_array n h1 a" using f1 o1 Inr by simp
        from Cons.IH [OF run n1 inv1] show ?thesis .
      qed
    qed
  qed
qed

lemma mergePageResults_store_own:
  assumes "mergePageResults_store h pages = (h', r)"
  shows "\<forall>out. r = Inr out \<longrightarrow> (\<forall>a \<in> set out. own_array (next_addr h) h' a)"
proof -
  obtain h1 r1 where s1: "merge_pages_store h ([], Map.empty) pages = (h1, r1)"
    by (cases "merge_pages_store h ([], Map.empty) pages")
  from merge_pages_store_own [OF s1, of "next_addr h"]
  have o: "\<forall>st'. r1 = Inr st' \<longrightarrow> (\<forall>a \<in> set (fst st'). own_array (next_addr h) h1 a)"
    by simp
  from assms s1 have "h' = h1" "r = map_sum id fst r1"
    by (auto simp: mergePageResults_store_def split: sum.splits)
  with o show ?thesis by (cases r1) auto
qed

text \<open>
  C7. \<open>mergePageResults\<close> leaves its argument alone: after a run, whether it returns or
  throws, every object and every array that was allocated before the call is what it was;
  the records it returns are new objects, each with an article array of its own. On a
  well-formed argument the pages read the same after the call, and the result, read out
  of the store, is the result of the value model on the pages read before the call; so
  two runs on arguments that read the same give results that read the same, in whatever
  stores they run. The function has no effect beside the store: the model has none.
\<close>

theorem C7_merge_leaves_argument_alone:
  "(mergePageResults_store h pages = (h', r) \<longrightarrow>
      next_addr h \<le> next_addr h' \<and>
      (\<forall>a < next_addr h. objects h' a = objects h a \<and> arrays h' a = arrays h a) \<and>
      (\<forall>out. r = Inr out \<longrightarrow>
         (\<forall>a \<in> set out. next_addr h \<le> a \<and> own_array (next_addr h) h' a)))
   \<and>
   (pages_ok h pages \<and> mergePageResults_store h pages = (h', r) \<longrightarrow>
      map (page_value h') pages = map (page_value h) pages \<and>
      map_sum id (map (\<lambda>a. the (value_of h' a))) r = mergePageResults (map (page_value h) pages))
   \<and>
   (pages_ok h1 pages1 \<and> pages_ok h2 pages2 \<and>
    map (page_value h1) pages1 = map (page_value h2) pages2 \<and>
    mergePageResults_store h1 pages1 = (h1', r1) \<and> mergePageResults_store h2 pages2 = (h2', r2) \<longrightarrow>
      map_sum id (map (\<lambda>a. the (value_of h1' a))) r1
        = map_sum id (map (\<lambda>a. the (value_of h2' a))) r2)"
proof -
  have frame: "mergePageResults_store h pages = (h', r) \<longrightarrow>
      next_addr h \<le> next_addr h' \<and>
      (\<forall>a < next_addr h. objects h' a = objects h a \<and> arrays h' a = arrays h a) \<and>
      (\<forall>out. r = Inr out \<longrightarrow>
         (\<forall>a \<in> set out. next_addr h \<le> a \<and> own_array (next_addr h) h' a))"
  proof
    assume run: "mergePageResults_store h pages = (h', r)"
    from mergePageResults_store_frame [OF run] mergePageResults_store_own [OF run]
    show "next_addr h \<le> next_addr h' \<and>
      (\<forall>a < next_addr h. objects h' a = objects h a \<and> arrays h' a = arrays h a) \<and>
      (\<forall>out. r = Inr out \<longrightarrow>
         (\<forall>a \<in> set out. next_addr h \<le> a \<and> own_array (next_addr h) h' a))"
      by (simp add: unchanged_below_def)
  qed
  have refines: "pages_ok h pages \<and> mergePageResults_store h pages = (h', r) \<longrightarrow>
      map (page_value h') pages = map (page_value h) pages \<and>
      map_sum id (map (\<lambda>a. the (value_of h' a))) r = mergePageResults (map (page_value h) pages)"
    using mergePageResults_store_refines [of h pages h' r] by blast
  have same: "pages_ok h1 pages1 \<and> pages_ok h2 pages2 \<and>
    map (page_value h1) pages1 = map (page_value h2) pages2 \<and>
    mergePageResults_store h1 pages1 = (h1', r1) \<and> mergePageResults_store h2 pages2 = (h2', r2) \<longrightarrow>
      map_sum id (map (\<lambda>a. the (value_of h1' a))) r1
        = map_sum id (map (\<lambda>a. the (value_of h2' a))) r2"
  proof
    assume a: "pages_ok h1 pages1 \<and> pages_ok h2 pages2 \<and>
      map (page_value h1) pages1 = map (page_value h2) pages2 \<and>
      mergePageResults_store h1 pages1 = (h1', r1) \<and> mergePageResults_store h2 pages2 = (h2', r2)"
    then have "map_sum id (map (\<lambda>a. the (value_of h1' a))) r1
                 = mergePageResults (map (page_value h1) pages1)"
      and "map_sum id (map (\<lambda>a. the (value_of h2' a))) r2
                 = mergePageResults (map (page_value h2) pages2)"
      using mergePageResults_store_refines(1) by blast+
    with a show "map_sum id (map (\<lambda>a. the (value_of h1' a))) r1
          = map_sum id (map (\<lambda>a. the (value_of h2' a))) r2"
      by simp
  qed
  from frame refines same show ?thesis by blast
qed

lemmas store_eval =
  mergePageResults_store_def merge_po_store_def merge_into_store_def push_copy_def
  new_array_def new_object_def read_articles_def example_store_def example_pages_def
  value_of_def with_articles_def page_value_def pages_ok_def entry_ok_def own_array_def

lemma example_run:
  "snd (mergePageResults_store example_store example_pages) = Inr [5]"
  by (simp add: store_eval merge_eval)

lemma example_ok: "pages_ok example_store example_pages"
  by (simp add: store_eval merge_eval)

text \<open>
  The two-page scenario on a store: the two input objects and their arrays are
  unchanged, the result is the new object at address 5 with the three articles.
\<close>

theorem C7_merge_leaves_argument_alone_witness:
  "snd (mergePageResults_store example_store example_pages) = Inr [5] \<and>
   objects (fst (mergePageResults_store example_store example_pages)) 1 = objects example_store 1 \<and>
   objects (fst (mergePageResults_store example_store example_pages)) 3 = objects example_store 3 \<and>
   arrays (fst (mergePageResults_store example_store example_pages)) 0 = arrays example_store 0 \<and>
   arrays (fst (mergePageResults_store example_store example_pages)) 2 = arrays example_store 2 \<and>
   own_array 4 (fst (mergePageResults_store example_store example_pages)) 5 \<and>
   mergePageResults (map (page_value example_store) example_pages)
     = Inr [the (value_of (fst (mergePageResults_store example_store example_pages)) 5)] \<and>
   value_of (fst (mergePageResults_store example_store example_pages)) 5
     = Some (empty_entry\<lparr>po_number := Some ''PO1'', supplier_name := Some ''Acme'',
          articles := Some [article_named ''Rice'', article_named ''Wheat'', article_named ''Salt'']\<rparr>)"
proof -
  let ?run = "mergePageResults_store example_store example_pages"
  have run: "?run = (fst ?run, snd ?run)" by simp
  have n: "next_addr example_store = 4" by (simp add: example_store_def)
  note inst = C7_merge_leaves_argument_alone
      [where h = example_store and pages = example_pages and h' = "fst ?run" and r = "snd ?run"]
  from inst [THEN conjunct1] run
  have frame: "(\<forall>a < next_addr example_store.
                  objects (fst ?run) a = objects example_store a \<and>
                  arrays (fst ?run) a = arrays example_store a)"
    and fresh: "\<forall>out. snd ?run = Inr out \<longrightarrow>
         (\<forall>a \<in> set out. next_addr example_store \<le> a \<and> own_array (next_addr example_store) (fst ?run) a)"
    by blast+
  from inst [THEN conjunct2, THEN conjunct1] run example_ok
  have refines: "map_sum id (map (\<lambda>a. the (value_of (fst ?run) a))) (snd ?run)
                   = mergePageResults (map (page_value example_store) example_pages)"
    by blast
  have v: "value_of (fst ?run) 5
     = Some (empty_entry\<lparr>po_number := Some ''PO1'', supplier_name := Some ''Acme'',
          articles := Some [article_named ''Rice'', article_named ''Wheat'', article_named ''Salt'']\<rparr>)"
    by (simp add: store_eval merge_eval)
  from frame n have "objects (fst ?run) 1 = objects example_store 1"
    "objects (fst ?run) 3 = objects example_store 3"
    "arrays (fst ?run) 0 = arrays example_store 0"
    "arrays (fst ?run) 2 = arrays example_store 2"
    by simp_all
  moreover from fresh example_run n have "own_array 4 (fst ?run) 5" by simp
  moreover from refines example_run
  have "mergePageResults (map (page_value example_store) example_pages)
          = Inr [the (value_of (fst ?run) 5)]" by simp
  ultimately show ?thesis using example_run v by blast
qed

end
